theory Spec2Isabelle
  imports Complex_Main "HOL-Library.Word" "HOL-Library.Multiset"
begin

unbundle bit_operations_syntax

section \<open>Go strings\<close>

text \<open>
  A Go \<open>string\<close> is a sequence of bytes and \<open>len\<close> counts bytes, so a Go string is a
  \<open>char list\<close> here and \<open>len\<close> is \<open>length\<close>. The functions of Go's \<open>strings\<close> and
  \<open>unicode\<close> packages have an ASCII part that is written out below, and a part that
  depends on the UTF-8 decoder and the Unicode tables of the Go distribution; that
  part is a parameter, the record \<open>unicode\<close>.
\<close>

type_synonym rune = nat

record unicode =
  MapToLower :: "string \<Rightarrow> string"
  FieldsFuncIsSpace :: "string \<Rightarrow> string list"
  RangeRunes :: "string \<Rightarrow> rune list"
  IndexRuneTab :: "string \<Rightarrow> rune \<Rightarrow> bool"
  IsDigitTab :: "rune \<Rightarrow> bool"
  IsLetterTab :: "rune \<Rightarrow> bool"

definition byte_of :: "char \<Rightarrow> nat" where
  "byte_of c = of_char c"

definition RuneSelf :: nat where
  "RuneSelf = 128"

definition isASCII :: "string \<Rightarrow> bool" where
  "isASCII s = list_all (\<lambda>c. byte_of c < RuneSelf) s"

text \<open>\<open>for _, c := range s\<close>: on a string of ASCII bytes the runes are the bytes.\<close>

definition runes :: "unicode \<Rightarrow> string \<Rightarrow> rune list" where
  "runes U s = (if isASCII s then map byte_of s else RangeRunes U s)"

definition HasPrefix :: "string \<Rightarrow> string \<Rightarrow> bool" where
  "HasPrefix s p = (length p \<le> length s \<and> take (length p) s = p)"

text \<open>\<open>strings.Contains(s, substr)\<close>: \<open>substr\<close> occurs in \<open>s\<close> as a run of bytes.\<close>

fun Contains :: "string \<Rightarrow> string \<Rightarrow> bool" where
  "Contains [] substr = (substr = [])"
| "Contains (c # s) substr = (HasPrefix (c # s) substr \<or> Contains s substr)"

text \<open>\<open>strings.ContainsRune(s, r)\<close>: a rune below \<open>RuneSelf\<close> is looked up as a byte.\<close>

definition ContainsRune :: "unicode \<Rightarrow> string \<Rightarrow> rune \<Rightarrow> bool" where
  "ContainsRune U s r = (if r < RuneSelf then r \<in> set (map byte_of s) else IndexRuneTab U s r)"

text \<open>\<open>unicode.IsDigit\<close>: in Latin-1 the digits are \<open>'0'\<close> to \<open>'9'\<close>.\<close>

definition IsDigit :: "unicode \<Rightarrow> rune \<Rightarrow> bool" where
  "IsDigit U r = (if r \<le> 255 then 48 \<le> r \<and> r \<le> 57 else IsDigitTab U r)"

text \<open>
  An instance of the parameter for running the functions on ASCII inputs, where the
  Unicode part is never consulted.
\<close>

definition ascii_tables :: unicode where
  "ascii_tables = \<lparr>MapToLower = (\<lambda>s. s), FieldsFuncIsSpace = (\<lambda>s. [s]),
     RangeRunes = map byte_of, IndexRuneTab = (\<lambda>s r. False),
     IsDigitTab = (\<lambda>r. False), IsLetterTab = (\<lambda>r. False)\<rparr>"

section \<open>The matcher: word comparison\<close>

datatype MatchType = MatchTypeExact | MatchTypeFuzzy

record MatchOptions =
  Type :: MatchType
  MinMatchPercent :: int
  WeightByLength :: bool
  MatchSimilar :: bool

definition isNumeric :: "unicode \<Rightarrow> string \<Rightarrow> bool" where
  "isNumeric U s = (list_all (IsDigit U) (runes U s) \<and> length s > 0)"

definition isSimilar :: "unicode \<Rightarrow> string \<Rightarrow> string \<Rightarrow> bool" where
  "isSimilar U word1 word2 =
     (if Contains word1 word2 \<or> Contains word2 word1 then True
      else if isNumeric U word1 \<and> isNumeric U word2 \<and> length word1 = length word2 then True
      else
        (let commonChars = length (filter (ContainsRune U word2) (runes U word1));
             similarity = (commonChars * 100) div max (length word1) (length word2)
         in similarity \<ge> 70))"

text \<open>
  The inner loop of \<open>compareWords\<close>, \<open>for i, secondWord := range secondCopy\<close>, from
  index \<open>i\<close> on. It returns the new \<open>secondCopy\<close> and the flag \<open>found\<close>; on a hit the
  element at \<open>i\<close> is cut out (\<open>append(secondCopy[:i], secondCopy[i+1:]...)\<close>) and the loop
  breaks. The test \<open>!found\<close> of the source is always true where it is evaluated.
\<close>

function scanSecond ::
  "unicode \<Rightarrow> MatchOptions \<Rightarrow> string \<Rightarrow> string list \<Rightarrow> nat \<Rightarrow> string list \<times> bool" where
  "scanSecond U opts word secondCopy i =
     (if i < length secondCopy then
        (let secondWord = secondCopy ! i in
         if word = secondWord then (take i secondCopy @ drop (i + 1) secondCopy, True)
         else if MatchSimilar opts \<and> isSimilar U word secondWord
           then (take i secondCopy @ drop (i + 1) secondCopy, True)
         else scanSecond U opts word secondCopy (i + 1))
      else (secondCopy, False))"
  by pat_completeness auto
termination
  by (relation "measure (\<lambda>(U, opts, word, secondCopy, i). length secondCopy - i)") auto

declare scanSecond.simps [simp del]

text \<open>The outer loop \<open>for _, word := range first\<close>, carrying \<open>secondCopy\<close> and \<open>matchCount\<close>.\<close>

fun matchLoop ::
  "unicode \<Rightarrow> MatchOptions \<Rightarrow> string list \<Rightarrow> string list \<Rightarrow> nat \<Rightarrow> nat" where
  "matchLoop U opts [] secondCopy matchCount = matchCount"
| "matchLoop U opts (word # rest) secondCopy matchCount =
     (case scanSecond U opts word secondCopy 0 of
        (secondCopy', found) \<Rightarrow>
          matchLoop U opts rest secondCopy'
            (if found then
               (if WeightByLength opts then matchCount + length word else matchCount + 1)
             else matchCount))"

definition totalCount :: "MatchOptions \<Rightarrow> string list \<Rightarrow> string list \<Rightarrow> nat" where
  "totalCount opts first second =
     (if WeightByLength opts
      then sum_list (map length first) + sum_list (map length second)
      else length first + length second)"

definition compareWords :: "unicode \<Rightarrow> MatchOptions \<Rightarrow> string list \<Rightarrow> string list \<Rightarrow> int" where
  "compareWords U opts first second =
     (if length first = 0 \<or> length second = 0 then 0
      else
        (let matchCount = matchLoop U opts first second 0;
             total = totalCount opts first second
         in if total > 0 then
              (let percentage = (matchCount * 2 * 100) div total
               in if percentage > 100 then 100 else int percentage)
            else 0))"

subsection \<open>The greedy matching in the words of the specification\<close>

text \<open>
  Two tokens match when they are identical or, with similar-word matching on, similar.
  For each token of the first file the remaining tokens of the second file are scanned
  in order; the first one that matches is consumed, and the token of the first file
  counts as matched.
\<close>

definition tokens_match :: "unicode \<Rightarrow> MatchOptions \<Rightarrow> string \<Rightarrow> string \<Rightarrow> bool" where
  "tokens_match U opts a b = (a = b \<or> (MatchSimilar opts \<and> isSimilar U a b))"

fun consume_first :: "('a \<Rightarrow> bool) \<Rightarrow> 'a list \<Rightarrow> 'a list option" where
  "consume_first P [] = None"
| "consume_first P (y # ys) =
     (if P y then Some ys else map_option ((#) y) (consume_first P ys))"

fun greedy_matched :: "(string \<Rightarrow> string \<Rightarrow> bool) \<Rightarrow> string list \<Rightarrow> string list \<Rightarrow> string list" where
  "greedy_matched m [] remaining = []"
| "greedy_matched m (x # xs) remaining =
     (case consume_first (m x) remaining of
        None \<Rightarrow> greedy_matched m xs remaining
      | Some remaining' \<Rightarrow> x # greedy_matched m xs remaining')"

definition token_weight :: "MatchOptions \<Rightarrow> string \<Rightarrow> nat" where
  "token_weight opts w = (if WeightByLength opts then length w else 1)"

definition matchedWeight :: "unicode \<Rightarrow> MatchOptions \<Rightarrow> string list \<Rightarrow> string list \<Rightarrow> nat" where
  "matchedWeight U opts first second =
     sum_list (map (token_weight opts) (greedy_matched (tokens_match U opts) first second))"

definition denominator :: "MatchOptions \<Rightarrow> string list \<Rightarrow> string list \<Rightarrow> nat" where
  "denominator opts first second =
     sum_list (map (token_weight opts) first) + sum_list (map (token_weight opts) second)"

text \<open>The options the command line builds in \<open>runScan\<close> for a fuzzy scan with the default threshold.\<close>

definition cli_fuzzy_opts :: MatchOptions where
  "cli_fuzzy_opts = \<lparr>Type = MatchTypeFuzzy, MinMatchPercent = 80,
                     WeightByLength = True, MatchSimilar = True\<rparr>"

section \<open>Word extraction\<close>

definition toLowerByte :: "char \<Rightarrow> char" where
  "toLowerByte c = (if 65 \<le> byte_of c \<and> byte_of c \<le> 90 then char_of (byte_of c + 32) else c)"

text \<open>\<open>strings.ToLower\<close>: an ASCII string is lowered byte by byte.\<close>

definition ToLower :: "unicode \<Rightarrow> string \<Rightarrow> string" where
  "ToLower U s = (if isASCII s then map toLowerByte s else MapToLower U s)"

definition IsPathSeparator :: "char \<Rightarrow> bool" where
  "IsPathSeparator c = (c = CHR ''/'')"

text \<open>
  \<open>filepath.Ext\<close>: \<open>for i := len(path) - 1; i >= 0 && !os.IsPathSeparator(path[i]); i--\<close>,
  returning \<open>path[i:]\<close> at the first dot met. The argument of \<open>Ext_loop\<close> is \<open>i + 1\<close>.
\<close>

fun Ext_loop :: "string \<Rightarrow> nat \<Rightarrow> string" where
  "Ext_loop path 0 = []"
| "Ext_loop path (Suc i) =
     (if IsPathSeparator (path ! i) then []
      else if path ! i = CHR ''.'' then drop i path
      else Ext_loop path i)"

definition Ext :: "string \<Rightarrow> string" where
  "Ext path = Ext_loop path (length path)"

definition HasSuffix :: "string \<Rightarrow> string \<Rightarrow> bool" where
  "HasSuffix s suffix =
     (length suffix \<le> length s \<and> drop (length s - length suffix) s = suffix)"

definition TrimSuffix :: "string \<Rightarrow> string \<Rightarrow> string" where
  "TrimSuffix s suffix =
     (if HasSuffix s suffix then take (length s - length suffix) s else s)"

text \<open>\<open>strings.ReplaceAll(s, old, new)\<close> for an \<open>old\<close> of one byte, as every replacer here is.\<close>

definition ReplaceAll :: "string \<Rightarrow> char \<Rightarrow> string \<Rightarrow> string" where
  "ReplaceAll s old new = concat (map (\<lambda>c. if c = old then new else [c]) s)"

definition replacers :: "(char \<times> string) list" where
  "replacers = [(CHR ''-'', '' ''), (CHR ''_'', '' ''), (CHR ''.'', '' ''), (CHR '','', '' ''),
                (CHR ''('', '' ''), (CHR '')'', '' ''), (CHR ''['', '' ''), (CHR '']'', '' ''),
                (CHR ''{'', '' ''), (CHR ''}'', '' '')]"

definition replaceSeparators :: "string \<Rightarrow> string" where
  "replaceSeparators filename = fold (\<lambda>r s. ReplaceAll s (fst r) (snd r)) replacers filename"

definition asciiSpace :: "char \<Rightarrow> bool" where
  "asciiSpace c = (byte_of c \<in> {9, 10, 11, 12, 13, 32})"

text \<open>
  \<open>strings.Fields\<close> on an ASCII string: the maximal runs of bytes that are not white
  space, in order; \<open>cur\<close> is the run being read.
\<close>

fun splitFields :: "string \<Rightarrow> string \<Rightarrow> string list" where
  "splitFields cur [] = (if cur = [] then [] else [cur])"
| "splitFields cur (c # s) =
     (if asciiSpace c then (if cur = [] then splitFields [] s else cur # splitFields [] s)
      else splitFields (cur @ [c]) s)"

definition Fields :: "unicode \<Rightarrow> string \<Rightarrow> string list" where
  "Fields U s = (if isASCII s then splitFields [] s else FieldsFuncIsSpace U s)"

text \<open>\<open>extractWords\<close> of package \<open>fs\<close>, the one \<open>File.ExtractWords\<close> calls.\<close>

definition extractWords :: "unicode \<Rightarrow> string \<Rightarrow> string list" where
  "extractWords U filename0 =
     (let filename1 = ToLower U filename0;
          filename2 = TrimSuffix filename1 (Ext filename1);
          filename = replaceSeparators filename2;
          parts = Fields U filename;
          words = filter (\<lambda>part. length part \<ge> 2) parts
      in if length words = 0 then words @ [ToLower U filename] else words)"

text \<open>\<open>unicode.IsLetter\<close>: the letters of Latin-1 are written out.\<close>

definition IsLetter :: "unicode \<Rightarrow> rune \<Rightarrow> bool" where
  "IsLetter U r =
     (if r \<le> 255 then
        (65 \<le> r \<and> r \<le> 90) \<or> (97 \<le> r \<and> r \<le> 122) \<or> r = 170 \<or> r = 181 \<or> r = 186
        \<or> (192 \<le> r \<and> r \<le> 214) \<or> (216 \<le> r \<and> r \<le> 246) \<or> 248 \<le> r
      else IsLetterTab U r)"

definition containsAlphaNumeric :: "unicode \<Rightarrow> string \<Rightarrow> bool" where
  "containsAlphaNumeric U s = list_ex (\<lambda>r. IsLetter U r \<or> IsDigit U r) (runes U s)"

text \<open>\<open>ExtractWords\<close> of package \<open>matcher\<close>, which no other function of the program calls.\<close>

definition ExtractWords :: "unicode \<Rightarrow> string \<Rightarrow> string list" where
  "ExtractWords U filename0 =
     (let filename1 = ToLower U filename0;
          filename2 = TrimSuffix filename1 (ToLower U (Ext filename1));
          filename = replaceSeparators filename2;
          parts = Fields U filename;
          words = filter (\<lambda>part. length part \<ge> 2 \<and> containsAlphaNumeric U part) parts
      in if length words = 0 \<and> length filename > 0 then words @ [filename] else words)"

text \<open>The lowercased, extension-stripped name, and the same with the separators replaced.\<close>

definition strippedName :: "unicode \<Rightarrow> string \<Rightarrow> string" where
  "strippedName U filename = TrimSuffix (ToLower U filename) (Ext (ToLower U filename))"

definition normalizedName :: "unicode \<Rightarrow> string \<Rightarrow> string" where
  "normalizedName U filename = replaceSeparators (strippedName U filename)"

section \<open>Hashing\<close>

type_synonym byte = "8 word"

subsection \<open>MD5\<close>

text \<open>
  \<open>crypto/md5\<close> of the Go distribution computes the MD5 digest of RFC 1321, written out
  here: the message is padded to a multiple of 64 bytes and consumed in blocks of 16
  little-endian words, 64 steps a block. Each table entry is the constant, the rotation
  and the index of the message word of one step.
\<close>


definition rotl32 :: "32 word \<Rightarrow> nat \<Rightarrow> 32 word" where
  "rotl32 x n = push_bit n x OR drop_bit (32 - n) x"

definition table1 :: "(32 word \<times> nat \<times> nat) list" where
  "table1 =
    [(0xd76aa478, 7, 0),
     (0xe8c7b756, 12, 1),
     (0x242070db, 17, 2),
     (0xc1bdceee, 22, 3),
     (0xf57c0faf, 7, 4),
     (0x4787c62a, 12, 5),
     (0xa8304613, 17, 6),
     (0xfd469501, 22, 7),
     (0x698098d8, 7, 8),
     (0x8b44f7af, 12, 9),
     (0xffff5bb1, 17, 10),
     (0x895cd7be, 22, 11),
     (0x6b901122, 7, 12),
     (0xfd987193, 12, 13),
     (0xa679438e, 17, 14),
     (0x49b40821, 22, 15)]"

definition table2 :: "(32 word \<times> nat \<times> nat) list" where
  "table2 =
    [(0xf61e2562, 5, 1),
     (0xc040b340, 9, 6),
     (0x265e5a51, 14, 11),
     (0xe9b6c7aa, 20, 0),
     (0xd62f105d, 5, 5),
     (0x02441453, 9, 10),
     (0xd8a1e681, 14, 15),
     (0xe7d3fbc8, 20, 4),
     (0x21e1cde6, 5, 9),
     (0xc33707d6, 9, 14),
     (0xf4d50d87, 14, 3),
     (0x455a14ed, 20, 8),
     (0xa9e3e905, 5, 13),
     (0xfcefa3f8, 9, 2),
     (0x676f02d9, 14, 7),
     (0x8d2a4c8a, 20, 12)]"

definition table3 :: "(32 word \<times> nat \<times> nat) list" where
  "table3 =
    [(0xfffa3942, 4, 5),
     (0x8771f681, 11, 8),
     (0x6d9d6122, 16, 11),
     (0xfde5380c, 23, 14),
     (0xa4beea44, 4, 1),
     (0x4bdecfa9, 11, 4),
     (0xf6bb4b60, 16, 7),
     (0xbebfbc70, 23, 10),
     (0x289b7ec6, 4, 13),
     (0xeaa127fa, 11, 0),
     (0xd4ef3085, 16, 3),
     (0x04881d05, 23, 6),
     (0xd9d4d039, 4, 9),
     (0xe6db99e5, 11, 12),
     (0x1fa27cf8, 16, 15),
     (0xc4ac5665, 23, 2)]"

definition table4 :: "(32 word \<times> nat \<times> nat) list" where
  "table4 =
    [(0xf4292244, 6, 0),
     (0x432aff97, 10, 7),
     (0xab9423a7, 15, 14),
     (0xfc93a039, 21, 5),
     (0x655b59c3, 6, 12),
     (0x8f0ccc92, 10, 3),
     (0xffeff47d, 15, 10),
     (0x85845dd1, 21, 1),
     (0x6fa87e4f, 6, 8),
     (0xfe2ce6e0, 10, 15),
     (0xa3014314, 15, 6),
     (0x4e0811a1, 21, 13),
     (0xf7537e82, 6, 4),
     (0xbd3af235, 10, 11),
     (0x2ad7d2bb, 15, 2),
     (0xeb86d391, 21, 9)]"

definition F1 :: "32 word \<Rightarrow> 32 word \<Rightarrow> 32 word \<Rightarrow> 32 word" where
  "F1 b c d = (b AND c) OR (NOT b AND d)"

definition F2 :: "32 word \<Rightarrow> 32 word \<Rightarrow> 32 word \<Rightarrow> 32 word" where
  "F2 b c d = (d AND b) OR (NOT d AND c)"

definition F3 :: "32 word \<Rightarrow> 32 word \<Rightarrow> 32 word \<Rightarrow> 32 word" where
  "F3 b c d = b XOR c XOR d"

definition F4 :: "32 word \<Rightarrow> 32 word \<Rightarrow> 32 word \<Rightarrow> 32 word" where
  "F4 b c d = c XOR (b OR NOT d)"

type_synonym md5state = "32 word \<times> 32 word \<times> 32 word \<times> 32 word"

definition md5_step ::
  "(32 word \<Rightarrow> 32 word \<Rightarrow> 32 word \<Rightarrow> 32 word) \<Rightarrow> 32 word list \<Rightarrow>
   32 word \<times> nat \<times> nat \<Rightarrow> md5state \<Rightarrow> md5state" where
  "md5_step f M e st =
     (case st of (a, b, c, d) \<Rightarrow>
      case e of (k, s, g) \<Rightarrow>
        (d, b + rotl32 (f b c d + a + k + M ! g) s, b, c))"

definition md5_block :: "md5state \<Rightarrow> 32 word list \<Rightarrow> md5state" where
  "md5_block st M =
     (case st of (a0, b0, c0, d0) \<Rightarrow>
      case fold (md5_step F4 M) table4
             (fold (md5_step F3 M) table3
               (fold (md5_step F2 M) table2
                 (fold (md5_step F1 M) table1 st))) of
        (a, b, c, d) \<Rightarrow> (a0 + a, b0 + b, c0 + c, d0 + d))"

definition le32 :: "byte \<Rightarrow> byte \<Rightarrow> byte \<Rightarrow> byte \<Rightarrow> 32 word" where
  "le32 b0 b1 b2 b3 =
     ucast b0 OR push_bit 8 (ucast b1) OR push_bit 16 (ucast b2) OR push_bit 24 (ucast b3)"

fun words_le :: "byte list \<Rightarrow> 32 word list" where
  "words_le (b0 # b1 # b2 # b3 # bs) = le32 b0 b1 b2 b3 # words_le bs"
| "words_le bs = []"

definition bytes_le32 :: "32 word \<Rightarrow> byte list" where
  "bytes_le32 w = [ucast w, ucast (drop_bit 8 w), ucast (drop_bit 16 w), ucast (drop_bit 24 w)]"

definition bytes_le64 :: "64 word \<Rightarrow> byte list" where
  "bytes_le64 w = map (\<lambda>i. ucast (drop_bit (8 * i) w)) [0, 1, 2, 3, 4, 5, 6, 7]"

definition md5_pad :: "byte list \<Rightarrow> byte list" where
  "md5_pad msg =
     msg @ [0x80] @ replicate ((119 - length msg mod 64) mod 64) 0
         @ bytes_le64 (word_of_nat (8 * length msg))"

fun md5_blocks :: "nat \<Rightarrow> md5state \<Rightarrow> byte list \<Rightarrow> md5state" where
  "md5_blocks 0 st bs = st"
| "md5_blocks (Suc n) st bs = md5_blocks n (md5_block st (words_le (take 64 bs))) (drop 64 bs)"

definition md5_init :: md5state where
  "md5_init = (0x67452301, 0xefcdab89, 0x98badcfe, 0x10325476)"

definition md5 :: "byte list \<Rightarrow> byte list" where
  "md5 msg =
     (let p = md5_pad msg in
      case md5_blocks (length p div 64) md5_init p of
        (a, b, c, d) \<Rightarrow> bytes_le32 a @ bytes_le32 b @ bytes_le32 c @ bytes_le32 d)"


text \<open>Two messages of 128 bytes that differ in six bytes.\<close>

definition collision_a1 :: "byte list" where
  "collision_a1 =
    [0xd1, 0x31, 0xdd, 0x02, 0xc5, 0xe6, 0xee, 0xc4, 0x69, 0x3d, 0x9a, 0x06, 0x98, 0xaf, 0xf9, 0x5c,
     0x2f, 0xca, 0xb5, 0x87, 0x12, 0x46, 0x7e, 0xab, 0x40, 0x04, 0x58, 0x3e, 0xb8, 0xfb, 0x7f, 0x89,
     0x55, 0xad, 0x34, 0x06, 0x09, 0xf4, 0xb3, 0x02, 0x83, 0xe4, 0x88, 0x83, 0x25, 0x71, 0x41, 0x5a,
     0x08, 0x51, 0x25, 0xe8, 0xf7, 0xcd, 0xc9, 0x9f, 0xd9, 0x1d, 0xbd, 0xf2, 0x80, 0x37, 0x3c, 0x5b]"

definition collision_a2 :: "byte list" where
  "collision_a2 =
    [0xd8, 0x82, 0x3e, 0x31, 0x56, 0x34, 0x8f, 0x5b, 0xae, 0x6d, 0xac, 0xd4, 0x36, 0xc9, 0x19, 0xc6,
     0xdd, 0x53, 0xe2, 0xb4, 0x87, 0xda, 0x03, 0xfd, 0x02, 0x39, 0x63, 0x06, 0xd2, 0x48, 0xcd, 0xa0,
     0xe9, 0x9f, 0x33, 0x42, 0x0f, 0x57, 0x7e, 0xe8, 0xce, 0x54, 0xb6, 0x70, 0x80, 0xa8, 0x0d, 0x1e,
     0xc6, 0x98, 0x21, 0xbc, 0xb6, 0xa8, 0x83, 0x93, 0x96, 0xf9, 0x65, 0x2b, 0x6f, 0xf7, 0x2a, 0x70]"

definition collision_a :: "byte list" where
  "collision_a = collision_a1 @ collision_a2"

definition collision_b1 :: "byte list" where
  "collision_b1 =
    [0xd1, 0x31, 0xdd, 0x02, 0xc5, 0xe6, 0xee, 0xc4, 0x69, 0x3d, 0x9a, 0x06, 0x98, 0xaf, 0xf9, 0x5c,
     0x2f, 0xca, 0xb5, 0x07, 0x12, 0x46, 0x7e, 0xab, 0x40, 0x04, 0x58, 0x3e, 0xb8, 0xfb, 0x7f, 0x89,
     0x55, 0xad, 0x34, 0x06, 0x09, 0xf4, 0xb3, 0x02, 0x83, 0xe4, 0x88, 0x83, 0x25, 0xf1, 0x41, 0x5a,
     0x08, 0x51, 0x25, 0xe8, 0xf7, 0xcd, 0xc9, 0x9f, 0xd9, 0x1d, 0xbd, 0x72, 0x80, 0x37, 0x3c, 0x5b]"

definition collision_b2 :: "byte list" where
  "collision_b2 =
    [0xd8, 0x82, 0x3e, 0x31, 0x56, 0x34, 0x8f, 0x5b, 0xae, 0x6d, 0xac, 0xd4, 0x36, 0xc9, 0x19, 0xc6,
     0xdd, 0x53, 0xe2, 0x34, 0x87, 0xda, 0x03, 0xfd, 0x02, 0x39, 0x63, 0x06, 0xd2, 0x48, 0xcd, 0xa0,
     0xe9, 0x9f, 0x33, 0x42, 0x0f, 0x57, 0x7e, 0xe8, 0xce, 0x54, 0xb6, 0x70, 0x80, 0x28, 0x0d, 0x1e,
     0xc6, 0x98, 0x21, 0xbc, 0xb6, 0xa8, 0x83, 0x93, 0x96, 0xf9, 0x65, 0xab, 0x6f, 0xf7, 0x2a, 0x70]"

definition collision_b :: "byte list" where
  "collision_b = collision_b1 @ collision_b2"

subsection \<open>Files on disk\<close>

datatype go_error = ErrNotExist | ErrPermission | ErrInvalid | ErrIO | Wrapped string go_error

text \<open>
  What \<open>os.Open\<close> and \<open>Read\<close> see of a file: its bytes, and the offset from which
  reading fails with an I/O error, if any.
\<close>

record diskFile =
  content :: "byte list"
  badFrom :: "nat option"

definition readable :: "diskFile \<Rightarrow> byte list" where
  "readable d = (case badFrom d of None \<Rightarrow> content d | Some k \<Rightarrow> take k (content d))"

text \<open>
  \<open>file.Read(buffer)\<close> at offset \<open>pos\<close> with a buffer of \<open>n\<close> bytes: the bytes read,
  the empty list for \<open>(0, io.EOF)\<close>, or an error other than \<open>io.EOF\<close>. As on a
  regular file, a read fills the buffer when the file has that many bytes left.
\<close>

definition Read :: "diskFile \<Rightarrow> nat \<Rightarrow> nat \<Rightarrow> go_error + byte list" where
  "Read d pos n =
     (if pos < length (readable d) then Inr (take n (drop pos (readable d)))
      else if badFrom d = None then Inr []
      else Inl ErrIO)"

definition ChunkSize :: nat where
  "ChunkSize = 1024 * 1024"

definition MinPartialSize :: nat where
  "MinPartialSize = 3 * ChunkSize"

definition PartialOffset :: nat where
  "PartialOffset = 0x4000"

definition PartialSize :: nat where
  "PartialSize = 0x4000"

text \<open>
  The read loop of \<open>HashFile\<close>. The hasher of \<open>md5.New()\<close> is the list of bytes written
  to it so far, and \<open>hasher.Sum(nil)\<close> is their digest.
\<close>

function HashFile_loop :: "diskFile \<Rightarrow> nat \<Rightarrow> byte list \<Rightarrow> go_error + byte list" where
  "HashFile_loop d pos hasher =
     (case Read d pos ChunkSize of
        Inl err \<Rightarrow> Inl err
      | Inr chunk \<Rightarrow>
          if length chunk = 0 then Inr (md5 hasher)
          else HashFile_loop d (pos + length chunk) (hasher @ chunk))"
  by pat_completeness auto
termination
  by (relation "measure (\<lambda>(d, pos, hasher). length (readable d) - pos)")
     (auto simp: Read_def ChunkSize_def split: if_splits)

declare HashFile_loop.simps [simp del]

definition HashFile :: "(string \<Rightarrow> diskFile option) \<Rightarrow> string \<Rightarrow> go_error + byte list" where
  "HashFile disk path =
     (case disk path of
        None \<Rightarrow> Inl ErrNotExist
      | Some d \<Rightarrow> HashFile_loop d 0 [])"

text \<open>\<open>HashFilePartial\<close>: one \<open>Read\<close> of \<open>PartialSize\<close> bytes after a seek to \<open>PartialOffset\<close>.\<close>

definition HashFilePartial :: "(string \<Rightarrow> diskFile option) \<Rightarrow> string \<Rightarrow> go_error + byte list" where
  "HashFilePartial disk path =
     (case disk path of
        None \<Rightarrow> Inl ErrNotExist
      | Some d \<Rightarrow>
          (case Read d PartialOffset PartialSize of
             Inl err \<Rightarrow> Inl err
           | Inr chunk \<Rightarrow> Inr (md5 chunk)))"

section \<open>File records\<close>

record File =
  Path :: string
  Name :: string
  Size :: int
  ModTime :: nat
  Digest :: "byte list option"
  DigestPart :: "byte list option"
  Words :: "string list option"
  IsReference :: bool

text \<open>
  The program holds its file records by pointer and fills their digest and word fields
  on demand. The records live in a heap indexed by pointer; \<open>nextFile\<close> is the next
  pointer to allocate. \<open>hashLog\<close> records every call of \<open>HashFile\<close> and
  \<open>HashFilePartial\<close>, and \<open>rangeCount\<close> counts the loops over a Go map run so far.
\<close>

datatype hashCall = FullHash string | PartialHash string

record world =
  heap :: "nat \<Rightarrow> File"
  nextFile :: nat
  hashLog :: "hashCall list"
  rangeCount :: nat

definition calculateFileHash ::
  "(string \<Rightarrow> diskFile option) \<Rightarrow> world \<Rightarrow> string \<Rightarrow> (go_error + byte list) \<times> world" where
  "calculateFileHash disk w path =
     (HashFile disk path, w\<lparr>hashLog := hashLog w @ [FullHash path]\<rparr>)"

definition calculatePartialFileHash ::
  "(string \<Rightarrow> diskFile option) \<Rightarrow> world \<Rightarrow> string \<Rightarrow> (go_error + byte list) \<times> world" where
  "calculatePartialFileHash disk w path =
     (HashFilePartial disk path, w\<lparr>hashLog := hashLog w @ [PartialHash path]\<rparr>)"

definition setFile :: "world \<Rightarrow> nat \<Rightarrow> File \<Rightarrow> world" where
  "setFile w f r = w\<lparr>heap := (heap w)(f := r)\<rparr>"

definition GetDigest ::
  "(string \<Rightarrow> diskFile option) \<Rightarrow> world \<Rightarrow> nat \<Rightarrow> (go_error + byte list) \<times> world" where
  "GetDigest disk w f =
     (case Digest (heap w f) of
        Some digest \<Rightarrow> (Inr digest, w)
      | None \<Rightarrow>
          (case calculateFileHash disk w (Path (heap w f)) of
             (Inl err, w') \<Rightarrow> (Inl err, w')
           | (Inr digest, w') \<Rightarrow>
               (Inr digest, setFile w' f ((heap w' f)\<lparr>Digest := Some digest\<rparr>))))"

definition GetPartialDigest ::
  "(string \<Rightarrow> diskFile option) \<Rightarrow> world \<Rightarrow> nat \<Rightarrow> (go_error + byte list) \<times> world" where
  "GetPartialDigest disk w f =
     (case DigestPart (heap w f) of
        Some digest \<Rightarrow> (Inr digest, w)
      | None \<Rightarrow>
          if Size (heap w f) < int MinPartialSize then GetDigest disk w f
          else
            (case calculatePartialFileHash disk w (Path (heap w f)) of
               (Inl err, w') \<Rightarrow> (Inl err, w')
             | (Inr digest, w') \<Rightarrow>
                 (Inr digest, setFile w' f ((heap w' f)\<lparr>DigestPart := Some digest\<rparr>))))"

definition File_ExtractWords :: "unicode \<Rightarrow> world \<Rightarrow> nat \<Rightarrow> string list \<times> world" where
  "File_ExtractWords U w f =
     (case Words (heap w f) of
        Some words \<Rightarrow> (words, w)
      | None \<Rightarrow>
          (let words = extractWords U (Name (heap w f))
           in (words, setFile w f ((heap w f)\<lparr>Words := Some words\<rparr>))))"

section \<open>The matcher: scoring two files\<close>

record Match =
  First :: nat
  Second :: nat
  Percentage :: int

definition mkMatch :: "nat \<Rightarrow> nat \<Rightarrow> int \<Rightarrow> Match" where
  "mkMatch first second p = \<lparr>First = first, Second = second, Percentage = p\<rparr>"

text \<open>The last part of \<open>matchExact\<close>: the full digests are fetched and compared.\<close>

definition compareFullDigests ::
  "(string \<Rightarrow> diskFile option) \<Rightarrow> world \<Rightarrow> nat \<Rightarrow> nat \<Rightarrow> Match \<times> world" where
  "compareFullDigests disk w first second =
     (case GetDigest disk w first of
        (Inl err, w1) \<Rightarrow> (mkMatch first second 0, w1)
      | (Inr digest1, w1) \<Rightarrow>
          (case GetDigest disk w1 second of
             (Inl err, w2) \<Rightarrow> (mkMatch first second 0, w2)
           | (Inr digest2, w2) \<Rightarrow>
               if digest1 = digest2 then (mkMatch first second 100, w2)
               else (mkMatch first second 0, w2)))"

definition matchExact ::
  "(string \<Rightarrow> diskFile option) \<Rightarrow> world \<Rightarrow> nat \<Rightarrow> nat \<Rightarrow> Match \<times> world" where
  "matchExact disk w first second =
     (if Size (heap w first) \<noteq> Size (heap w second) then (mkMatch first second 0, w)
      else if Size (heap w first) \<ge> 3 * 1024 * 1024 then
        (case GetPartialDigest disk w first of
           (Inl err, w1) \<Rightarrow> (mkMatch first second 0, w1)
         | (Inr digest1, w1) \<Rightarrow>
             (case GetPartialDigest disk w1 second of
                (Inl err, w2) \<Rightarrow> (mkMatch first second 0, w2)
              | (Inr digest2, w2) \<Rightarrow>
                  if digest1 \<noteq> digest2 then (mkMatch first second 0, w2)
                  else compareFullDigests disk w2 first second))
      else compareFullDigests disk w first second)"

definition matchFuzzy ::
  "unicode \<Rightarrow> MatchOptions \<Rightarrow> world \<Rightarrow> nat \<Rightarrow> nat \<Rightarrow> Match \<times> world" where
  "matchFuzzy U opts w first second =
     (case File_ExtractWords U w first of
        (words1, w1) \<Rightarrow>
          (case File_ExtractWords U w1 second of
             (words2, w2) \<Rightarrow>
               (mkMatch first second (compareWords U opts words1 words2), w2)))"

definition Matcher_Match ::
  "unicode \<Rightarrow> (string \<Rightarrow> diskFile option) \<Rightarrow> MatchOptions \<Rightarrow> world \<Rightarrow> nat \<Rightarrow> nat
   \<Rightarrow> Match \<times> world" where
  "Matcher_Match U disk opts w first second =
     (if Type opts = MatchTypeExact then matchExact disk w first second
      else matchFuzzy U opts w first second)"

section \<open>Records and the files they describe\<close>

text \<open>
  A record reads as the bytes \<open>c\<close> when the file at its path has these bytes and reads
  without error. The size a record holds is the one of the \<open>FileInfo\<close> the scan took from
  the directory entry; the bytes are those \<open>os.Open\<close> finds at the path. The two can
  disagree: the \<open>FileInfo\<close> of a symbolic link holds the size of the link, and \<open>os.Open\<close>
  reads the file the link points to.
\<close>

definition readsAs :: "(string \<Rightarrow> diskFile option) \<Rightarrow> File \<Rightarrow> byte list \<Rightarrow> bool" where
  "readsAs disk r c = (disk (Path r) = Some \<lparr>content = c, badFrom = None\<rparr>)"

text \<open>
  A record describes a readable file of bytes \<open>c\<close> when the file at its path has these
  bytes, reads without error, and has the size the record holds. Its cached digests are
  valid when each is unset or the digest the program would compute.
\<close>

definition describes :: "(string \<Rightarrow> diskFile option) \<Rightarrow> File \<Rightarrow> byte list \<Rightarrow> bool" where
  "describes disk r c =
     (disk (Path r) = Some \<lparr>content = c, badFrom = None\<rparr> \<and> Size r = int (length c))"

definition partialWindow :: "byte list \<Rightarrow> byte list" where
  "partialWindow c = take PartialSize (drop PartialOffset c)"

definition cachesValid :: "File \<Rightarrow> byte list \<Rightarrow> bool" where
  "cachesValid r c =
     ((Digest r = None \<or> Digest r = Some (md5 c))
      \<and> (DigestPart r = None
           \<or> (int MinPartialSize \<le> Size r \<and> DigestPart r = Some (md5 (partialWindow c)))))"

text \<open>\<open>NewFileFromFileInfo\<close>, with the fields of the \<open>os.FileInfo\<close> as arguments.\<close>

definition NewFileFromFileInfo :: "string \<Rightarrow> string \<Rightarrow> int \<Rightarrow> nat \<Rightarrow> File" where
  "NewFileFromFileInfo path name sz modTime =
     \<lparr>Path = path, Name = name, Size = sz, ModTime = modTime, Digest = None,
      DigestPart = None, Words = None, IsReference = False\<rparr>"

text \<open>A world of two records, at the pointers 0 and 1, and a disk of two readable files.\<close>

definition twoFiles :: "File \<Rightarrow> File \<Rightarrow> world" where
  "twoFiles ra rb = \<lparr>heap = (\<lambda>_. ra)(1 := rb), nextFile = 2, hashLog = [], rangeCount = 0\<rparr>"

definition twoFileDisk :: "string \<Rightarrow> byte list \<Rightarrow> string \<Rightarrow> byte list \<Rightarrow> string \<Rightarrow> diskFile option" where
  "twoFileDisk pa ca pb cb =
     (Map.empty(pa \<mapsto> \<lparr>content = ca, badFrom = None\<rparr>))(pb \<mapsto> \<lparr>content = cb, badFrom = None\<rparr>)"

section \<open>The environment of a run\<close>

text \<open>
  What a run takes from outside the program: the Unicode tables, the file system (a
  file opened for reading, \<open>os.Stat\<close>, and the tree \<open>filepath.WalkDir\<close> finds under a
  root), the regular expressions of package \<open>regexp\<close> (whether an expression compiles,
  and whether a compiled one matches a string), and \<open>pickOrder\<close>, which settles what is
  left open: the order of each loop over a map and, for the runs of \<open>sort.Slice\<close> that
  are not written out below, the order it gives to elements that compare equal.
\<close>

record FileInfo =
  InfoName :: string
  InfoSize :: int
  InfoModTime :: nat
  InfoIsDir :: bool

text \<open>
  A directory entry as \<open>WalkDir\<close> passes it to its callback, with its path: a file with
  the result of \<open>entry.Info()\<close>, or a directory with the entries and the error of
  \<open>os.ReadDir\<close>.
\<close>

datatype dirent =
  FileEntry string string "go_error + FileInfo"
| DirEntry string string "dirent list" "go_error option"

record env =
  Unicode :: unicode
  Open :: "string \<Rightarrow> diskFile option"
  Stat :: "string \<Rightarrow> go_error + FileInfo"
  Lstat :: "string \<Rightarrow> go_error + dirent"
  Compiles :: "string \<Rightarrow> bool"
  MatchString :: "string \<Rightarrow> string \<Rightarrow> bool"
  pickOrder :: "nat \<Rightarrow> nat list"

text \<open>
  \<open>shuffle seed xs\<close> rearranges \<open>xs\<close>: each number of the seed picks the next element
  among those left. Every order of \<open>xs\<close> is \<open>shuffle seed xs\<close> for some seed.
\<close>

fun shuffle :: "nat list \<Rightarrow> 'a list \<Rightarrow> 'a list" where
  "shuffle [] xs = xs"
| "shuffle (n # ns) xs =
     (if xs = [] then []
      else xs ! (n mod length xs)
           # shuffle ns (take (n mod length xs) xs @ drop (Suc (n mod length xs)) xs))"

text \<open>A Go map filled by \<open>m[k] = append(m[k], v)\<close>, as the list of its keys and values.\<close>

fun mapAppend :: "('k \<times> 'v list) list \<Rightarrow> 'k \<Rightarrow> 'v \<Rightarrow> ('k \<times> 'v list) list" where
  "mapAppend [] k v = [(k, [v])]"
| "mapAppend ((k', vs) # m) k v =
     (if k' = k then (k', vs @ [v]) # m else (k', vs) # mapAppend m k v)"

text \<open>\<open>for _, v := range m\<close> over a map: the values in the order the environment picks.\<close>

definition rangeMap :: "env \<Rightarrow> world \<Rightarrow> ('k \<times> 'v) list \<Rightarrow> 'v list \<times> world" where
  "rangeMap E w m =
     (map snd (shuffle (pickOrder E (rangeCount w)) m), w\<lparr>rangeCount := rangeCount w + 1\<rparr>)"

section \<open>The library function \<open>sort.Slice\<close>\<close>

text \<open>
  \<open>sort.Slice(x, less)\<close> runs \<open>pdqsort_func\<close> (pattern-defeating quicksort) on the whole
  slice. The comparison \<open>less(i, j)\<close> of two indices is \<open>lt (data ! i) (data ! j)\<close> here, and
  \<open>data.Swap(i, j)\<close> exchanges two elements.
\<close>

definition Swap :: "'a list \<Rightarrow> nat \<Rightarrow> nat \<Rightarrow> 'a list" where
  "Swap data i j = data[i := data ! j, j := data ! i]"

text \<open>
  \<open>insertionSort_func\<close> sorts \<open>data[a:b]\<close>:
  \<open>for i := a + 1; i < b; i++ { for j := i; j > a && less(j, j-1); j-- { swap(j, j-1) } }\<close>.
  The inner loop moves the element at \<open>i\<close> to the left, past every element it is less
  than; \<open>insertLeft\<close> does so on the part already sorted, given from its end. An element
  never passes one it is not less than, so elements that compare equal keep their order.
\<close>

fun insertLeft :: "('a \<Rightarrow> 'a \<Rightarrow> bool) \<Rightarrow> 'a \<Rightarrow> 'a list \<Rightarrow> 'a list" where
  "insertLeft lt x [] = [x]"
| "insertLeft lt x (y # ys) = (if lt x y then y # insertLeft lt x ys else x # y # ys)"

definition insertionSort :: "('a \<Rightarrow> 'a \<Rightarrow> bool) \<Rightarrow> 'a list \<Rightarrow> 'a list" where
  "insertionSort lt xs = rev (foldl (\<lambda>done x. insertLeft lt x done) [] xs)"

definition insertionSort_func :: "('a \<Rightarrow> 'a \<Rightarrow> bool) \<Rightarrow> 'a list \<Rightarrow> nat \<Rightarrow> nat \<Rightarrow> 'a list" where
  "insertionSort_func lt data a b =
     take a data @ insertionSort lt (take (b - a) (drop a data)) @ drop b data"

text \<open>
  \<open>choosePivot_func\<close>: on 8 elements or more the pivot is the median of the elements at
  the three quarter points, and the hint tells how many exchanges finding it took. The
  medians of three adjacent elements, taken first on 50 elements or more, are not
  written out: there the result is \<open>None\<close>.
\<close>

datatype sortedHint = unknownHint | increasingHint | decreasingHint

definition order2_func ::
  "('a \<Rightarrow> 'a \<Rightarrow> bool) \<Rightarrow> 'a list \<Rightarrow> nat \<Rightarrow> nat \<Rightarrow> nat \<Rightarrow> nat \<times> nat \<times> nat" where
  "order2_func lt data a b swaps =
     (if lt (data ! b) (data ! a) then (b, a, swaps + 1) else (a, b, swaps))"

definition median_func ::
  "('a \<Rightarrow> 'a \<Rightarrow> bool) \<Rightarrow> 'a list \<Rightarrow> nat \<Rightarrow> nat \<Rightarrow> nat \<Rightarrow> nat \<Rightarrow> nat \<times> nat" where
  "median_func lt data a0 b0 c0 swaps0 =
     (case order2_func lt data a0 b0 swaps0 of
        (a1, b1, swaps1) \<Rightarrow>
          (case order2_func lt data b1 c0 swaps1 of
             (b2, c2, swaps2) \<Rightarrow>
               (case order2_func lt data a1 b2 swaps2 of
                  (a3, b3, swaps3) \<Rightarrow> (b3, swaps3))))"

definition maxInsertion :: nat where
  "maxInsertion = 12"

definition shortestNinther :: nat where
  "shortestNinther = 50"

definition maxSwaps :: nat where
  "maxSwaps = 4 * 3"

definition shortestShifting :: nat where
  "shortestShifting = 50"

definition choosePivot_func ::
  "('a \<Rightarrow> 'a \<Rightarrow> bool) \<Rightarrow> 'a list \<Rightarrow> nat \<Rightarrow> nat \<Rightarrow> (nat \<times> sortedHint) option" where
  "choosePivot_func lt data a b =
     (let l = b - a;
          i = a + l div 4 * 1;
          j = a + l div 4 * 2;
          k = a + l div 4 * 3
      in if l \<ge> 8 then
           (if l \<ge> shortestNinther then None
            else
              (case median_func lt data i j k 0 of
                 (j', swaps) \<Rightarrow>
                   Some (j', if swaps = 0 then increasingHint
                             else if swaps = maxSwaps then decreasingHint
                             else unknownHint)))
         else Some (j, increasingHint))"

text \<open>
  \<open>partialInsertionSort_func\<close> starts with \<open>for i < b && !less(i, i-1) { i++ }\<close> from
  \<open>i = a + 1\<close> and returns \<open>true\<close> when that reaches \<open>b\<close>: the slice is in order. Otherwise,
  on fewer than 50 elements, it returns \<open>false\<close> and has changed nothing. The shifting it
  does on 50 elements or more is not written out.
\<close>

function inOrderUpTo :: "('a \<Rightarrow> 'a \<Rightarrow> bool) \<Rightarrow> 'a list \<Rightarrow> nat \<Rightarrow> nat \<Rightarrow> nat" where
  "inOrderUpTo lt data i b =
     (if i < b \<and> \<not> lt (data ! i) (data ! (i - 1)) then inOrderUpTo lt data (i + 1) b else i)"
  by pat_completeness auto
termination
  by (relation "measure (\<lambda>(lt, data, i, b). b - i)") auto

declare inOrderUpTo.simps [simp del]

definition partialInsertionSort_func ::
  "('a \<Rightarrow> 'a \<Rightarrow> bool) \<Rightarrow> 'a list \<Rightarrow> nat \<Rightarrow> nat \<Rightarrow> bool option" where
  "partialInsertionSort_func lt data a b =
     (let i = inOrderUpTo lt data (a + 1) b
      in if i = b then Some True
         else if b - a < shortestShifting then Some False
         else None)"

text \<open>
  \<open>partition_func\<close> puts the pivot at \<open>a\<close> and partitions the elements from \<open>i = a + 1\<close> to
  \<open>j = b - 1\<close>, both inclusive. The argument \<open>j1\<close> of the functions below is \<open>j + 1\<close>.
  \<open>scanUp\<close> is the loop \<open>for i <= j && less(i, a) { i++ }\<close>, \<open>scanDown\<close> is the loop
  \<open>for i <= j && !less(j, a) { j-- }\<close>, and \<open>partitionLoop\<close> is the loop around them, which
  exchanges the two elements found and goes on between them.
\<close>

function scanUp :: "('a \<Rightarrow> 'a \<Rightarrow> bool) \<Rightarrow> 'a list \<Rightarrow> nat \<Rightarrow> nat \<Rightarrow> nat \<Rightarrow> nat" where
  "scanUp lt data a i j1 =
     (if i < j1 \<and> lt (data ! i) (data ! a) then scanUp lt data a (i + 1) j1 else i)"
  by pat_completeness auto
termination
  by (relation "measure (\<lambda>(lt, data, a, i, j1). j1 - i)") auto

function scanDown :: "('a \<Rightarrow> 'a \<Rightarrow> bool) \<Rightarrow> 'a list \<Rightarrow> nat \<Rightarrow> nat \<Rightarrow> nat \<Rightarrow> nat" where
  "scanDown lt data a i j1 =
     (if i < j1 \<and> \<not> lt (data ! (j1 - 1)) (data ! a) then scanDown lt data a i (j1 - 1) else j1)"
  by pat_completeness auto
termination
  by (relation "measure (\<lambda>(lt, data, a, i, j1). j1)") auto

declare scanUp.simps [simp del] scanDown.simps [simp del]

function partitionLoop ::
  "('a \<Rightarrow> 'a \<Rightarrow> bool) \<Rightarrow> 'a list \<Rightarrow> nat \<Rightarrow> nat \<Rightarrow> nat \<Rightarrow> 'a list \<times> nat" where
  "partitionLoop lt data a i j1 =
     (let i' = scanUp lt data a i j1;
          j1' = scanDown lt data a i' j1
      in if i' \<ge> j1' then (data, j1')
         else partitionLoop lt (Swap data i' (j1' - 1)) a (i' + 1) (j1' - 1))"
  by pat_completeness auto
termination
proof (relation "measure (\<lambda>(lt, data, a, i, j1). j1 - i)", goal_cases)
  case 1
  show ?case by simp
next
  case (2 lt data a i j1 i' j1')
  have up: "n \<le> scanUp f xs p n m" for f :: "'a \<Rightarrow> 'a \<Rightarrow> bool" and xs p n m
    by (induction f xs p n m rule: scanUp.induct) (subst scanUp.simps, auto)
  have down: "scanDown f xs p n m \<le> m" for f :: "'a \<Rightarrow> 'a \<Rightarrow> bool" and xs p n m
    by (induction f xs p n m rule: scanDown.induct) (subst scanDown.simps, auto)
  from 2 up [of i lt data a j1] down [of lt data a i' j1] show ?case
    by auto
qed

declare partitionLoop.simps [simp del]

text \<open>
  \<open>partition_func\<close> returns the new index of the pivot and whether the slice was
  partitioned already. Its first round stands before the loop in the source.
\<close>

definition partition_func ::
  "('a \<Rightarrow> 'a \<Rightarrow> bool) \<Rightarrow> 'a list \<Rightarrow> nat \<Rightarrow> nat \<Rightarrow> nat \<Rightarrow> 'a list \<times> nat \<times> bool" where
  "partition_func lt data0 a b pivot =
     (let data = Swap data0 a pivot;
          i = scanUp lt data a (a + 1) b;
          j1 = scanDown lt data a i b
      in if i \<ge> j1 then (Swap data (j1 - 1) a, j1 - 1, True)
         else
           (case partitionLoop lt (Swap data i (j1 - 1)) a (i + 1) (j1 - 1) of
              (data', j1') \<Rightarrow> (Swap data' (j1' - 1) a, j1' - 1, False)))"

text \<open>
  \<open>pdqsort_func\<close> sorts \<open>data[a:b]\<close>. At most 12 elements are sorted by insertion. On more,
  a pivot is chosen; when the choice took no exchange and the slice is in order already,
  it is left as it is; otherwise it is partitioned around the pivot and the two sides
  are sorted in the same way. The runs written out are those in which both sides have
  at most 12 elements, which is every run on 13 elements; the result is \<open>Some\<close> slice
  then. The steps not written out, where the result is \<open>None\<close>, are: a side of more than
  12 elements (the next round, with \<open>breakPatterns_func\<close> after an unbalanced partition
  and \<open>partitionEqual_func\<close>), \<open>heapSort_func\<close> at limit 0, and what is done on 50 elements
  or more (\<open>reverseRange_func\<close> needs 12 exchanges in \<open>choosePivot_func\<close>).
\<close>

definition pdqsort_func ::
  "('a \<Rightarrow> 'a \<Rightarrow> bool) \<Rightarrow> 'a list \<Rightarrow> nat \<Rightarrow> nat \<Rightarrow> nat \<Rightarrow> 'a list option" where
  "pdqsort_func lt data a b limit =
     (if b - a \<le> maxInsertion then Some (insertionSort_func lt data a b)
      else if limit = 0 then None
      else
        (case choosePivot_func lt data a b of
           None \<Rightarrow> None
         | Some (pivot, hint) \<Rightarrow>
             if hint = decreasingHint then None
             else
               (case (if hint = increasingHint then partialInsertionSort_func lt data a b
                      else Some False) of
                  None \<Rightarrow> None
                | Some True \<Rightarrow> Some data
                | Some False \<Rightarrow>
                    if a > 0 \<and> \<not> lt (data ! (a - 1)) (data ! pivot) then None
                    else
                      (case partition_func lt data a b pivot of
                         (data', mid, alreadyPartitioned) \<Rightarrow>
                           if mid - a \<le> maxInsertion \<and> b - (mid + 1) \<le> maxInsertion
                           then Some (insertionSort_func lt
                                        (insertionSort_func lt data' a mid) (mid + 1) b)
                           else None))))"

text \<open>\<open>bits.Len\<close>: the number of bits of a number.\<close>

fun bitsLen :: "nat \<Rightarrow> nat" where
  "bitsLen n = (if n = 0 then 0 else Suc (bitsLen (n div 2)))"

declare bitsLen.simps [simp del]

definition Slice :: "('a \<Rightarrow> 'a \<Rightarrow> bool) \<Rightarrow> 'a list \<Rightarrow> 'a list option" where
  "Slice lt x = pdqsort_func lt x 0 (length x) (bitsLen (length x))"

text \<open>
  The call of \<open>sort.Slice\<close> in the program. Where the run is written out, the result
  is the one of \<open>Slice\<close>. Where it is not, the result is known to be a rearrangement of
  the slice in which no element is \<open>less\<close> than one before it, and nothing more, since
  \<open>sort.Slice\<close> is not stable: every such result is the insertion sort of some
  rearrangement of the slice, which the environment picks.
\<close>

definition sortSlice :: "env \<Rightarrow> world \<Rightarrow> ('a \<Rightarrow> 'a \<Rightarrow> bool) \<Rightarrow> 'a list \<Rightarrow> 'a list \<times> world" where
  "sortSlice E w lt xs =
     (case Slice lt xs of
        Some ys \<Rightarrow> ys
      | None \<Rightarrow> insertionSort lt (shuffle (pickOrder E (rangeCount w)) xs),
      w\<lparr>rangeCount := rangeCount w + 1\<rparr>)"

text \<open>
  The state of \<open>partition_func\<close> between two rounds: the elements before \<open>i\<close> are less
  than the pivot at \<open>a\<close>, and those from \<open>j1\<close> on are not.
\<close>

definition partitioned ::
  "('a \<Rightarrow> 'a \<Rightarrow> bool) \<Rightarrow> 'a list \<Rightarrow> nat \<Rightarrow> nat \<Rightarrow> nat \<Rightarrow> nat \<Rightarrow> bool" where
  "partitioned lt data a i j1 b =
     ((\<forall>k. a < k \<and> k < i \<longrightarrow> lt (data ! k) (data ! a))
      \<and> (\<forall>k. j1 \<le> k \<and> k < b \<longrightarrow> \<not> lt (data ! k) (data ! a)))"

section \<open>Directories\<close>

record Directory =
  DirPath :: string
  DirName :: string
  DirIsReference :: bool
  DirExcludePattern :: "string option"

text \<open>\<open>filepath.Base\<close>: the last element of the path, trailing slashes removed.\<close>

definition Base :: "string \<Rightarrow> string" where
  "Base path =
     (if path = [] then ''.''
      else
        (let p = rev (dropWhile IsPathSeparator (rev path))
         in if p = [] then ''/'' else rev (takeWhile (\<lambda>c. \<not> IsPathSeparator c) (rev p))))"

definition NewDirectory :: "env \<Rightarrow> string \<Rightarrow> go_error + Directory" where
  "NewDirectory E path =
     (case Stat E path of
        Inl err \<Rightarrow> Inl err
      | Inr info \<Rightarrow>
          if \<not> InfoIsDir info then Inl ErrInvalid
          else Inr \<lparr>DirPath = path, DirName = Base path, DirIsReference = False,
                    DirExcludePattern = None\<rparr>)"

text \<open>The translation of the exclude globs into a regular expression.\<close>

definition globToRegex :: "string \<Rightarrow> string" where
  "globToRegex pattern =
     (let regexStr = ReplaceAll pattern (CHR ''.'') [CHR 0x5C, CHR ''.''];
          regexStr = ReplaceAll regexStr (CHR ''*'') ''.*'';
          regexStr = ReplaceAll regexStr (CHR ''?'') ''.''
      in ''^('' @ ReplaceAll regexStr (CHR '','') ''|'' @ '')$'')"

text \<open>\<open>Directory.SetExcludePattern\<close>: \<open>regexp.Compile\<close>, whose error is returned.\<close>

definition SetExcludePattern :: "env \<Rightarrow> Directory \<Rightarrow> string \<Rightarrow> go_error option \<times> Directory" where
  "SetExcludePattern E d pattern =
     (if pattern = [] then (None, d\<lparr>DirExcludePattern := None\<rparr>)
      else
        (let regexStr = globToRegex pattern
         in if \<not> Compiles E regexStr then (Some ErrInvalid, d)
            else (None, d\<lparr>DirExcludePattern := Some regexStr\<rparr>)))"

subsection \<open>Walking a directory\<close>

text \<open>What the callback of \<open>filepath.WalkDir\<close> returns: \<open>nil\<close>, \<open>filepath.SkipDir\<close> or an error.\<close>

datatype walkResult = Continue | SkipDir | Abort go_error

fun entryIsDir :: "dirent \<Rightarrow> bool" where
  "entryIsDir (FileEntry path name info) = False"
| "entryIsDir (DirEntry path name dirs err) = True"

fun entryName :: "dirent \<Rightarrow> string" where
  "entryName (FileEntry path name info) = name"
| "entryName (DirEntry path name dirs err) = name"

text \<open>
  \<open>walkDir\<close> of package \<open>filepath\<close>: the callback is called on the entry; on a directory
  it is called again with the error of \<open>ReadDir\<close>, if any, and then the entries are
  walked in order. \<open>SkipDir\<close> from a directory skips it, from a file it ends the loop
  over the directory that holds the file.
\<close>

fun walkDir ::
    "(string \<Rightarrow> dirent option \<Rightarrow> go_error option \<Rightarrow> 'st \<Rightarrow> walkResult \<times> 'st)
     \<Rightarrow> dirent \<Rightarrow> 'st \<Rightarrow> walkResult \<times> 'st"
  and walkDirs ::
    "(string \<Rightarrow> dirent option \<Rightarrow> go_error option \<Rightarrow> 'st \<Rightarrow> walkResult \<times> 'st)
     \<Rightarrow> dirent list \<Rightarrow> 'st \<Rightarrow> walkResult \<times> 'st" where
  "walkDir fn (FileEntry path name info) st =
     fn path (Some (FileEntry path name info)) None st"
| "walkDir fn (DirEntry path name dirs rdErr) st =
     (case fn path (Some (DirEntry path name dirs rdErr)) None st of
        (SkipDir, st1) \<Rightarrow> (Continue, st1)
      | (Abort err, st1) \<Rightarrow> (Abort err, st1)
      | (Continue, st1) \<Rightarrow>
          (case rdErr of
             None \<Rightarrow> walkDirs fn dirs st1
           | Some err \<Rightarrow>
               (case fn path (Some (DirEntry path name dirs rdErr)) (Some err) st1 of
                  (SkipDir, st2) \<Rightarrow> (Continue, st2)
                | (Abort err', st2) \<Rightarrow> (Abort err', st2)
                | (Continue, st2) \<Rightarrow> walkDirs fn dirs st2)))"
| "walkDirs fn [] st = (Continue, st)"
| "walkDirs fn (d1 # ds) st =
     (case walkDir fn d1 st of
        (SkipDir, st1) \<Rightarrow> (Continue, st1)
      | (Abort err, st1) \<Rightarrow> (Abort err, st1)
      | (Continue, st1) \<Rightarrow> walkDirs fn ds st1)"

definition WalkDir ::
  "env \<Rightarrow> string
   \<Rightarrow> (string \<Rightarrow> dirent option \<Rightarrow> go_error option \<Rightarrow> 'st \<Rightarrow> walkResult \<times> 'st)
   \<Rightarrow> 'st \<Rightarrow> go_error option \<times> 'st" where
  "WalkDir E rootPath fn st =
     (case (case Lstat E rootPath of
              Inl err \<Rightarrow> fn rootPath None (Some err) st
            | Inr info \<Rightarrow> walkDir fn info st) of
        (Abort err, st1) \<Rightarrow> (Some err, st1)
      | (_, st1) \<Rightarrow> (None, st1))"

text \<open>\<open>NewFileFromFileInfo\<close> allocates the record it returns a pointer to.\<close>

definition allocFile :: "world \<Rightarrow> File \<Rightarrow> nat \<times> world" where
  "allocFile w r = (nextFile w, w\<lparr>heap := (heap w)(nextFile w := r), nextFile := nextFile w + 1\<rparr>)"

text \<open>
  The callback of \<open>ScanFiles\<close>; its state is the world and the slice \<open>files\<close>. With a
  \<open>nil\<close> error \<open>WalkDir\<close> always passes an entry.
\<close>

definition scanCallback ::
  "env \<Rightarrow> Directory \<Rightarrow> bool \<Rightarrow> string \<Rightarrow> dirent option \<Rightarrow> go_error option
   \<Rightarrow> world \<times> nat list \<Rightarrow> walkResult \<times> world \<times> nat list" where
  "scanCallback E d recursive path entry err st =
     (case err of
        Some e \<Rightarrow> (Abort e, st)
      | None \<Rightarrow>
          (case entry of
             None \<Rightarrow> (Abort ErrInvalid, st)
           | Some (DirEntry p name dirs rdErr) \<Rightarrow>
               if path \<noteq> DirPath d \<and> \<not> recursive then (SkipDir, st) else (Continue, st)
           | Some (FileEntry p name info) \<Rightarrow>
               if DirExcludePattern d \<noteq> None
                  \<and> MatchString E (the (DirExcludePattern d)) name
               then (Continue, st)
               else
                 (case info of
                    Inl e \<Rightarrow> (Continue, st)
                  | Inr fi \<Rightarrow>
                      (case allocFile (fst st)
                              ((NewFileFromFileInfo path (InfoName fi) (InfoSize fi) (InfoModTime fi))
                                 \<lparr>IsReference := DirIsReference d\<rparr>) of
                         (file, w') \<Rightarrow> (Continue, (w', snd st @ [file]))))))"

definition ScanFiles ::
  "env \<Rightarrow> world \<Rightarrow> Directory \<Rightarrow> bool \<Rightarrow> (go_error + nat list) \<times> world" where
  "ScanFiles E w d recursive =
     (case WalkDir E (DirPath d) (scanCallback E d recursive) (w, []) of
        (Some err, (w', files)) \<Rightarrow> (Inl err, w')
      | (None, (w', files)) \<Rightarrow> (Inr files, w'))"

section \<open>The scanner\<close>

datatype ScanType = ScanTypeStandard | ScanTypeContent

record Scanner =
  Directories :: "string list"
  ExcludePattern :: "string option"
  Recursive :: bool
  ScanType :: ScanType
  MinMatchPct :: int
  RefDirs :: "string set"
  files :: "nat list"
  filesBySize :: "(int \<times> nat list) list"

text \<open>A call returns or panics.\<close>

datatype 'a outcome = Returned 'a | Panicked string

text \<open>\<open>NewScanner\<close>: \<open>regexp.MustCompile\<close> panics when the expression does not compile.\<close>

definition NewScanner ::
  "env \<Rightarrow> string list \<Rightarrow> string \<Rightarrow> bool \<Rightarrow> ScanType \<Rightarrow> int \<Rightarrow> Scanner outcome" where
  "NewScanner E dirs exclude recursive scanType minMatch =
     (if exclude \<noteq> [] \<and> \<not> Compiles E (globToRegex exclude)
      then Panicked (''regexp: Compile('' @ globToRegex exclude @ '')'')
      else Returned
        \<lparr>Directories = dirs,
         ExcludePattern = (if exclude \<noteq> [] then Some (globToRegex exclude) else None),
         Recursive = recursive, ScanType = scanType, MinMatchPct = minMatch,
         RefDirs = {}, files = [], filesBySize = []\<rparr>)"

text \<open>\<open>scanDirectory\<close>: the files of one directory are added to \<open>files\<close> and \<open>filesBySize\<close>.\<close>

definition addFile :: "world \<Rightarrow> Scanner \<Rightarrow> nat \<Rightarrow> Scanner" where
  "addFile w s file =
     s\<lparr>files := files s @ [file],
       filesBySize := mapAppend (filesBySize s) (Size (heap w file)) file\<rparr>"

definition scanDirectory ::
  "env \<Rightarrow> world \<Rightarrow> Scanner \<Rightarrow> Directory \<Rightarrow> go_error option \<times> Scanner \<times> world" where
  "scanDirectory E w s dir =
     (case ScanFiles E w dir (Recursive s) of
        (Inl err, w') \<Rightarrow> (Some err, s, w')
      | (Inr fs, w') \<Rightarrow> (None, foldl (addFile w') s fs, w'))"

text \<open>The loop of \<open>Scan\<close> over the directories.\<close>

fun scanLoop ::
  "env \<Rightarrow> world \<Rightarrow> Scanner \<Rightarrow> string list \<Rightarrow> go_error option \<times> Scanner \<times> world" where
  "scanLoop E w s [] = (None, s, w)"
| "scanLoop E w s (dirPath # rest) =
     (case NewDirectory E dirPath of
        Inl err \<Rightarrow>
          (Some (Wrapped (''error creating directory object for '' @ dirPath) err), s, w)
      | Inr dir0 \<Rightarrow>
          (let dir1 = (if ExcludePattern s \<noteq> None
                       then dir0\<lparr>DirExcludePattern := ExcludePattern s\<rparr> else dir0);
               dir = (if dirPath \<in> RefDirs s then dir1\<lparr>DirIsReference := True\<rparr> else dir1)
           in case scanDirectory E w s dir of
                (Some err, s', w') \<Rightarrow>
                  (Some (Wrapped (''error scanning directory '' @ dirPath) err), s', w')
              | (None, s', w') \<Rightarrow> scanLoop E w' s' rest))"

definition Scan :: "env \<Rightarrow> world \<Rightarrow> Scanner \<Rightarrow> (go_error + nat list) \<times> Scanner \<times> world" where
  "Scan E w s =
     (case scanLoop E w (s\<lparr>files := [], filesBySize := []\<rparr>) (Directories s) of
        (Some err, s', w') \<Rightarrow> (Inl err, s', w')
      | (None, s', w') \<Rightarrow> (Inr (files s'), s', w'))"

definition GetPotentialDuplicates :: "env \<Rightarrow> world \<Rightarrow> Scanner \<Rightarrow> nat list list \<times> world" where
  "GetPotentialDuplicates E w s =
     (case rangeMap E w (filesBySize s) of
        (buckets, w') \<Rightarrow> (filter (\<lambda>fs. length fs > 1) buckets, w'))"

section \<open>The engine\<close>

record DuplicateGroup =
  Reference :: nat
  Duplicates :: "nat list"
  Matches :: "Match list"

record Engine =
  Scanner :: Scanner
  Matcher :: MatchOptions
  groups :: "DuplicateGroup list"

definition NewEngine :: "Scanner \<Rightarrow> MatchOptions \<Rightarrow> Engine" where
  "NewEngine scanner matcher = \<lparr>Scanner = scanner, Matcher = matcher, groups = []\<rparr>"

text \<open>
  The functions that build groups carry the world and the group list of the engine.
  The loop of \<open>createDuplicateGroup\<close> scores each duplicate against the reference.
\<close>

fun matchAll ::
  "env \<Rightarrow> MatchOptions \<Rightarrow> world \<Rightarrow> nat \<Rightarrow> nat list \<Rightarrow> Match list \<times> world" where
  "matchAll E opts w reference [] = ([], w)"
| "matchAll E opts w reference (dupe # rest) =
     (case Matcher_Match (Unicode E) (Open E) opts w reference dupe of
        (m, w1) \<Rightarrow>
          (case matchAll E opts w1 reference rest of
             (ms, w2) \<Rightarrow> (m # ms, w2)))"

text \<open>\<open>createDuplicateGroup\<close>; its callers pass at least two files.\<close>

definition createDuplicateGroup ::
  "env \<Rightarrow> MatchOptions \<Rightarrow> world \<times> DuplicateGroup list \<Rightarrow> nat list
   \<Rightarrow> world \<times> DuplicateGroup list" where
  "createDuplicateGroup E opts st fs =
     (case fs of
        [] \<Rightarrow> st
      | reference # duplicates \<Rightarrow>
          (case matchAll E opts (fst st) reference duplicates of
             (matches, w') \<Rightarrow>
               (w', snd st @ [\<lparr>Reference = reference, Duplicates = duplicates,
                               Matches = matches\<rparr>])))"

text \<open>
  The first loop of \<open>processExactMatches\<close>: the files are grouped by hash, the partial
  digest from 3 MiB on and the full digest below; a file whose hash fails is left out.
\<close>

fun groupByHash ::
  "env \<Rightarrow> world \<Rightarrow> (byte list \<times> nat list) list \<Rightarrow> nat list
   \<Rightarrow> (byte list \<times> nat list) list \<times> world" where
  "groupByHash E w filesByHash [] = (filesByHash, w)"
| "groupByHash E w filesByHash (file # rest) =
     (case (if Size (heap w file) \<ge> 3 * 1024 * 1024
            then GetPartialDigest (Open E) w file
            else GetDigest (Open E) w file) of
        (Inl err, w') \<Rightarrow> groupByHash E w' filesByHash rest
      | (Inr hash, w') \<Rightarrow> groupByHash E w' (mapAppend filesByHash hash file) rest)"

text \<open>The loop over a group of equal partial hash: the files are grouped by full hash.\<close>

fun groupByFullHash ::
  "env \<Rightarrow> world \<Rightarrow> (byte list \<times> nat list) list \<Rightarrow> nat list
   \<Rightarrow> (byte list \<times> nat list) list \<times> world" where
  "groupByFullHash E w filesByFullHash [] = (filesByFullHash, w)"
| "groupByFullHash E w filesByFullHash (file # rest) =
     (case GetDigest (Open E) w file of
        (Inl err, w') \<Rightarrow> groupByFullHash E w' filesByFullHash rest
      | (Inr hash, w') \<Rightarrow> groupByFullHash E w' (mapAppend filesByFullHash hash file) rest)"

text \<open>The loop \<open>for _, fullHashGroup := range filesByFullHash\<close>.\<close>

fun fullHashGroups ::
  "env \<Rightarrow> MatchOptions \<Rightarrow> world \<times> DuplicateGroup list \<Rightarrow> nat list list
   \<Rightarrow> world \<times> DuplicateGroup list" where
  "fullHashGroups E opts st [] = st"
| "fullHashGroups E opts st (fullHashGroup # rest) =
     (if length fullHashGroup < 2 then fullHashGroups E opts st rest
      else fullHashGroups E opts (createDuplicateGroup E opts st fullHashGroup) rest)"

text \<open>The loop \<open>for _, hashGroup := range filesByHash\<close>.\<close>

fun hashGroups ::
  "env \<Rightarrow> MatchOptions \<Rightarrow> world \<times> DuplicateGroup list \<Rightarrow> nat list list
   \<Rightarrow> world \<times> DuplicateGroup list" where
  "hashGroups E opts st [] = st"
| "hashGroups E opts st (hashGroup # rest) =
     (if length hashGroup < 2 then hashGroups E opts st rest
      else if Size (heap (fst st) (hd hashGroup)) \<ge> 3 * 1024 * 1024 then
        (case groupByFullHash E (fst st) [] hashGroup of
           (filesByFullHash, w1) \<Rightarrow>
             (case rangeMap E w1 filesByFullHash of
                (fullGroups, w2) \<Rightarrow>
                  hashGroups E opts (fullHashGroups E opts (w2, snd st) fullGroups) rest))
      else hashGroups E opts (createDuplicateGroup E opts st hashGroup) rest)"

definition processExactMatches ::
  "env \<Rightarrow> MatchOptions \<Rightarrow> world \<times> DuplicateGroup list \<Rightarrow> nat list
   \<Rightarrow> world \<times> DuplicateGroup list" where
  "processExactMatches E opts st fs =
     (case groupByHash E (fst st) [] fs of
        (filesByHash, w1) \<Rightarrow>
          (case rangeMap E w1 filesByHash of
             (groupsByHash, w2) \<Rightarrow> hashGroups E opts (w2, snd st) groupsByHash))"

text \<open>
  The inner loop of \<open>processFuzzyMatches\<close>, \<open>for _, otherFile := range files\<close>, carrying
  the world, \<open>matches\<close>, \<open>duplicates\<close> and the set \<open>processed\<close>.
\<close>

fun fuzzyInner ::
  "env \<Rightarrow> MatchOptions \<Rightarrow> nat \<Rightarrow> world \<times> Match list \<times> nat list \<times> nat set \<Rightarrow> nat list
   \<Rightarrow> world \<times> Match list \<times> nat list \<times> nat set" where
  "fuzzyInner E opts file st [] = st"
| "fuzzyInner E opts file (w, matches, duplicates, processed) (otherFile # rest) =
     (if file = otherFile \<or> otherFile \<in> processed
      then fuzzyInner E opts file (w, matches, duplicates, processed) rest
      else
        (case Matcher_Match (Unicode E) (Open E) opts w file otherFile of
           (m, w') \<Rightarrow>
             if Percentage m \<ge> MinMatchPercent opts
             then fuzzyInner E opts file
                    (w', matches @ [m], duplicates @ [otherFile], insert otherFile processed) rest
             else fuzzyInner E opts file (w', matches, duplicates, processed) rest))"

text \<open>The outer loop, \<open>for _, file := range files\<close>, over the rest \<open>todo\<close> of \<open>files\<close>.\<close>

fun fuzzyOuter ::
  "env \<Rightarrow> MatchOptions \<Rightarrow> nat list \<Rightarrow> world \<times> DuplicateGroup list \<times> nat set \<Rightarrow> nat list
   \<Rightarrow> world \<times> DuplicateGroup list \<times> nat set" where
  "fuzzyOuter E opts fs st [] = st"
| "fuzzyOuter E opts fs (w, gs, processed) (file # todo) =
     (if file \<in> processed then fuzzyOuter E opts fs (w, gs, processed) todo
      else
        (case fuzzyInner E opts file (w, [], [], processed) fs of
           (w', matches, duplicates, processed') \<Rightarrow>
             if length duplicates > 0
             then fuzzyOuter E opts fs
                    (w', gs @ [\<lparr>Reference = file, Duplicates = duplicates, Matches = matches\<rparr>],
                     insert file processed') todo
             else fuzzyOuter E opts fs (w', gs, processed') todo))"

definition processFuzzyMatches ::
  "env \<Rightarrow> MatchOptions \<Rightarrow> world \<times> DuplicateGroup list \<Rightarrow> nat list
   \<Rightarrow> world \<times> DuplicateGroup list" where
  "processFuzzyMatches E opts st fs =
     (case fuzzyOuter E opts fs (fst st, snd st, {}) fs of
        (w', gs, processed) \<Rightarrow> (w', gs))"

definition processFileGroup ::
  "env \<Rightarrow> MatchOptions \<Rightarrow> world \<times> DuplicateGroup list \<Rightarrow> nat list
   \<Rightarrow> world \<times> DuplicateGroup list" where
  "processFileGroup E opts st fs =
     (if length fs < 2 then st
      else if Type opts = MatchTypeExact then processExactMatches E opts st fs
      else processFuzzyMatches E opts st fs)"

text \<open>The comparison \<open>FindDuplicates\<close> gives to \<open>sort.Slice\<close>.\<close>

definition moreDuplicates :: "DuplicateGroup \<Rightarrow> DuplicateGroup \<Rightarrow> bool" where
  "moreDuplicates gi gj = (length (Duplicates gi) > length (Duplicates gj))"

definition FindDuplicates ::
  "env \<Rightarrow> world \<Rightarrow> Engine \<Rightarrow> (go_error + DuplicateGroup list) \<times> Engine \<times> world" where
  "FindDuplicates E w e =
     (case Scan E w (Scanner e) of
        (Inl err, s', w1) \<Rightarrow> (Inl (Wrapped ''scan error'' err), e\<lparr>Scanner := s'\<rparr>, w1)
      | (Inr scanned, s', w1) \<Rightarrow>
          (case GetPotentialDuplicates E w1 s' of
             (potentialDupes, w2) \<Rightarrow>
               (case foldl (processFileGroup E (Matcher e)) (w2, []) potentialDupes of
                  (w3, found) \<Rightarrow>
                    (case sortSlice E w3 moreDuplicates found of
                       (ordered, w4) \<Rightarrow>
                         (Inr ordered, e\<lparr>Scanner := s', groups := ordered\<rparr>, w4)))))"

definition GetGroups :: "Engine \<Rightarrow> DuplicateGroup list" where
  "GetGroups e = groups e"

definition GetTotalDuplicateCount :: "Engine \<Rightarrow> int" where
  "GetTotalDuplicateCount e = sum_list (map (\<lambda>g. int (length (Duplicates g))) (groups e))"

definition GetTotalDuplicateSize :: "world \<Rightarrow> Engine \<Rightarrow> int" where
  "GetTotalDuplicateSize w e =
     sum_list (map (\<lambda>g. sum_list (map (\<lambda>dupe. Size (heap w dupe)) (Duplicates g))) (groups e))"

text \<open>
  The part of \<open>runScan\<close> that builds the scanner, the matcher and the engine and calls
  \<open>FindDuplicates\<close>; \<open>scanType\<close> and \<open>minMatchPct\<close> are the parsed flags.
\<close>

definition runScan ::
  "env \<Rightarrow> world \<Rightarrow> string list \<Rightarrow> string \<Rightarrow> bool \<Rightarrow> ScanType \<Rightarrow> int
   \<Rightarrow> ((go_error + DuplicateGroup list) \<times> Engine \<times> world) outcome" where
  "runScan E w dirs exclude recursive scanType minMatchPct =
     (case NewScanner E dirs exclude recursive scanType minMatchPct of
        Panicked msg \<Rightarrow> Panicked msg
      | Returned s \<Rightarrow>
          (let matchOpts =
                 \<lparr>Type = (if scanType = ScanTypeContent then MatchTypeExact else MatchTypeFuzzy),
                  MinMatchPercent = minMatchPct, WeightByLength = True, MatchSimilar = True\<rparr>
           in Returned (FindDuplicates E w (NewEngine s matchOpts))))"

section \<open>Invariants of a scan\<close>

text \<open>What a scan does to the world: records are only added, from \<open>nextFile\<close> on.\<close>

definition extends :: "world \<Rightarrow> world \<Rightarrow> bool" where
  "extends w w' = (nextFile w \<le> nextFile w' \<and> (\<forall>p < nextFile w. heap w' p = heap w p))"

definition freshFiles :: "world \<Rightarrow> world \<times> nat list \<Rightarrow> bool" where
  "freshFiles w0 st =
     (extends w0 (fst st) \<and> distinct (snd st)
      \<and> set (snd st) \<subseteq> {nextFile w0 ..< nextFile (fst st)})"

text \<open>
  The scanner after a scan that started in the world \<open>w0\<close>: its files are distinct
  records allocated by the scan, and the size buckets hold exactly these files.
\<close>

definition scanInv :: "world \<Rightarrow> Scanner \<Rightarrow> world \<Rightarrow> bool" where
  "scanInv w0 s w =
     (extends w0 w \<and> distinct (files s) \<and> set (files s) \<subseteq> {nextFile w0 ..< nextFile w}
      \<and> mset (concat (map snd (filesBySize s))) = mset (files s))"

text \<open>The records of a group list, and the groups whose two slices have the same length.\<close>

definition members :: "DuplicateGroup list \<Rightarrow> nat list" where
  "members gs = concat (map (\<lambda>g. Reference g # Duplicates g) gs)"

definition aligned :: "DuplicateGroup \<Rightarrow> bool" where
  "aligned g = (length (Duplicates g) = length (Matches g))"

text \<open>Every duplicate of a group list is a record the world has allocated.\<close>

definition groupsAllocated :: "world \<Rightarrow> DuplicateGroup list \<Rightarrow> bool" where
  "groupsAllocated w gs = list_all (\<lambda>g. list_all (\<lambda>dupe. dupe < nextFile w) (Duplicates g)) gs"

text \<open>
  A step of the grouping that is given the files \<open>fs\<close>: it adds groups to the list,
  made of records of \<open>fs\<close>, each used once at most, and with as many matches as
  duplicates.
\<close>

definition grows ::
  "nat list \<Rightarrow> world \<times> DuplicateGroup list \<Rightarrow> world \<times> DuplicateGroup list \<Rightarrow> bool" where
  "grows fs st st' =
     (\<exists>new. snd st' = snd st @ new \<and> mset (members new) \<subseteq># mset fs \<and> list_all aligned new)"

section \<open>Example environments\<close>

text \<open>
  An environment for running the program on ASCII names: no pattern matches a name,
  and of all expressions only \<open>^([)$\<close>, the translation of the glob \<open>[\<close>, fails to
  compile, as it does in Go for want of a closing bracket.
\<close>

definition mkEnv ::
  "(string \<Rightarrow> go_error + FileInfo) \<Rightarrow> (string \<Rightarrow> go_error + dirent)
   \<Rightarrow> (string \<Rightarrow> diskFile option) \<Rightarrow> (nat \<Rightarrow> nat list) \<Rightarrow> env" where
  "mkEnv st ls dk ord =
     \<lparr>Unicode = ascii_tables, Open = dk, Stat = st, Lstat = ls,
      Compiles = (\<lambda>rx. rx \<noteq> ''^([)$''), MatchString = (\<lambda>rx s. False), pickOrder = ord\<rparr>"

text \<open>An environment without any directory, and an engine that holds the group of an earlier run.\<close>

definition emptyEnv :: env where
  "emptyEnv = mkEnv (\<lambda>p. Inl ErrNotExist) (\<lambda>p. Inl ErrNotExist) Map.empty (\<lambda>n. [])"

definition mkScanner :: "string list \<Rightarrow> Scanner" where
  "mkScanner dirs =
     \<lparr>Directories = dirs, ExcludePattern = None, Recursive = False,
      ScanType = ScanTypeContent, MinMatchPct = 80, RefDirs = {}, files = [], filesBySize = []\<rparr>"

definition cli_exact_opts :: MatchOptions where
  "cli_exact_opts = \<lparr>Type = MatchTypeExact, MinMatchPercent = 80,
                     WeightByLength = True, MatchSimilar = True\<rparr>"

definition usedEngine :: Engine where
  "usedEngine =
     \<lparr>Scanner = mkScanner [''/gone''], Matcher = cli_exact_opts,
      groups = [\<lparr>Reference = 0, Duplicates = [1], Matches = [mkMatch 0 1 100]\<rparr>]\<rparr>"

definition usedWorld :: world where
  "usedWorld = twoFiles (NewFileFromFileInfo ''/old/a'' ''a'' 7 0) (NewFileFromFileInfo ''/old/b'' ''b'' 7 0)"

text \<open>
  A directory \<open>/d\<close> that holds files of one byte with the given names: a file whose
  name starts with \<open>a\<close> holds the byte \<open>a\<close>, one whose name starts with \<open>b\<close> the byte
  \<open>b\<close>. The last argument is the order the environment picks.
\<close>

definition demoInfo :: "string \<Rightarrow> FileInfo" where
  "demoInfo name = \<lparr>InfoName = name, InfoSize = 1, InfoModTime = 0, InfoIsDir = False\<rparr>"

definition demoTree :: "string list \<Rightarrow> dirent" where
  "demoTree names =
     DirEntry ''/d'' ''d''
       (map (\<lambda>name. FileEntry (''/d/'' @ name) name (Inr (demoInfo name))) names) None"

definition demoDisk :: "string \<Rightarrow> diskFile option" where
  "demoDisk p =
     (if take 4 p = ''/d/a'' then Some \<lparr>content = [0x61], badFrom = None\<rparr>
      else if take 4 p = ''/d/b'' then Some \<lparr>content = [0x62], badFrom = None\<rparr>
      else None)"

definition demoEnv :: "string list \<Rightarrow> (nat \<Rightarrow> nat list) \<Rightarrow> env" where
  "demoEnv names ord =
     mkEnv (\<lambda>p. if p = ''/d''
                 then Inr \<lparr>InfoName = ''d'', InfoSize = 0, InfoModTime = 0, InfoIsDir = True\<rparr>
                 else Inl ErrNotExist)
           (\<lambda>p. if p = ''/d'' then Inr (demoTree names) else Inl ErrNotExist)
           demoDisk ord"

definition emptyWorld :: world where
  "emptyWorld = \<lparr>heap = (\<lambda>p. NewFileFromFileInfo [] [] 0 0), nextFile = 0, hashLog = [],
                 rangeCount = 0\<rparr>"

definition demoEngine :: Engine where
  "demoEngine = NewEngine (mkScanner [''/d'']) cli_exact_opts"

text \<open>
  The groups of the directory with the files \<open>a1 a2 b1 b2 b3\<close>: the files \<open>a1 a2\<close> and the
  files \<open>b1 b2 b3\<close>.
\<close>

definition groupA :: DuplicateGroup where
  "groupA = \<lparr>Reference = 0, Duplicates = [1], Matches = [mkMatch 0 1 100]\<rparr>"

definition groupB3 :: DuplicateGroup where
  "groupB3 = \<lparr>Reference = 2, Duplicates = [3, 4],
               Matches = [mkMatch 2 3 100, mkMatch 2 4 100]\<rparr>"

text \<open>
  A directory of 27 files of one byte for a scan by name: two files named \<open>aaa\<close>, two
  named \<open>bbb\<close>, and so on to \<open>lll\<close>, and three files named \<open>mmm\<close>, told apart by their
  extensions. \<open>os.ReadDir\<close> lists them in this order. The engine is the one \<open>runScan\<close>
  builds for a standard scan.
\<close>

definition thirteenNames :: "string list" where
  "thirteenNames =
     [''aaa.p'', ''aaa.q'', ''bbb.p'', ''bbb.q'', ''ccc.p'', ''ccc.q'', ''ddd.p'', ''ddd.q'',
      ''eee.p'', ''eee.q'', ''fff.p'', ''fff.q'', ''ggg.p'', ''ggg.q'', ''hhh.p'', ''hhh.q'',
      ''iii.p'', ''iii.q'', ''jjj.p'', ''jjj.q'', ''kkk.p'', ''kkk.q'', ''lll.p'', ''lll.q'',
      ''mmm.p'', ''mmm.q'', ''mmm.r'']"

definition fuzzyEngine :: Engine where
  "fuzzyEngine = NewEngine ((mkScanner [''/d''])\<lparr>ScanType := ScanTypeStandard\<rparr>) cli_fuzzy_opts"

text \<open>The group of the file at \<open>r\<close> with the next file, or with the next two files.\<close>

definition pairGroup :: "nat \<Rightarrow> DuplicateGroup" where
  "pairGroup r = \<lparr>Reference = r, Duplicates = [r + 1], Matches = [mkMatch r (r + 1) 100]\<rparr>"

definition tripleGroup :: "nat \<Rightarrow> DuplicateGroup" where
  "tripleGroup r =
     \<lparr>Reference = r, Duplicates = [r + 1, r + 2],
      Matches = [mkMatch r (r + 1) 100, mkMatch r (r + 2) 100]\<rparr>"

text \<open>The group list of the engine before \<open>sort.Slice\<close>: the groups in the order they were found.\<close>

definition discovered :: "env \<Rightarrow> world \<Rightarrow> Engine \<Rightarrow> DuplicateGroup list" where
  "discovered E w e =
     (case Scan E w (Scanner e) of
        (Inl err, s', w1) \<Rightarrow> []
      | (Inr scanned, s', w1) \<Rightarrow>
          (case GetPotentialDuplicates E w1 s' of
             (potentialDupes, w2) \<Rightarrow>
               snd (foldl (processFileGroup E (Matcher e)) (w2, []) potentialDupes)))"

section \<open>Properties of the word comparison\<close>

lemma scanSecond_consume:
  "i \<le> length sc \<Longrightarrow>
   scanSecond U opts w sc i =
     (case consume_first (tokens_match U opts w) (drop i sc) of
        None \<Rightarrow> (sc, False)
      | Some r \<Rightarrow> (take i sc @ r, True))"
proof (induction U opts w sc i rule: scanSecond.induct)
  case (1 U opts word secondCopy i)
  show ?case
  proof (cases "i < length secondCopy")
    case False
    with "1.prems" show ?thesis
      by (subst scanSecond.simps) simp
  next
    case True
    then have d: "drop i secondCopy = secondCopy ! i # drop (Suc i) secondCopy"
      by (simp add: Cons_nth_drop_Suc)
    show ?thesis
    proof (cases "tokens_match U opts word (secondCopy ! i)")
      case True
      with \<open>i < length secondCopy\<close> d show ?thesis
        by (auto simp: scanSecond.simps [of U opts word secondCopy i] tokens_match_def Let_def)
    next
      case False
      then have ne: "word \<noteq> secondCopy ! i"
        and ns: "\<not> (MatchSimilar opts \<and> isSimilar U word (secondCopy ! i))"
        by (auto simp: tokens_match_def)
      have ih: "scanSecond U opts word secondCopy (i + 1) =
          (case consume_first (tokens_match U opts word) (drop (i + 1) secondCopy) of
             None \<Rightarrow> (secondCopy, False)
           | Some r \<Rightarrow> (take (i + 1) secondCopy @ r, True))"
        using "1.IH" [OF True refl ne ns] True by simp
      have t: "take (Suc i) secondCopy = take i secondCopy @ [secondCopy ! i]"
        using True by (simp add: take_Suc_conv_app_nth)
      show ?thesis
        using True False ne ns ih d t
        by (auto simp: scanSecond.simps [of U opts word secondCopy i] Let_def split: option.splits)
    qed
  qed
qed

lemma matchLoop_greedy:
  "matchLoop U opts first sc mc =
     mc + sum_list (map (token_weight opts) (greedy_matched (tokens_match U opts) first sc))"
proof (induction first arbitrary: sc mc)
  case Nil
  show ?case by simp
next
  case (Cons w ws)
  show ?case
    by (cases "consume_first (tokens_match U opts w) sc")
       (simp_all add: scanSecond_consume Cons.IH token_weight_def)
qed

lemma totalCount_denominator: "totalCount opts first second = denominator opts first second"
proof -
  have "token_weight opts = (if WeightByLength opts then length else (\<lambda>_. 1))"
    by (auto simp: fun_eq_iff token_weight_def)
  then show ?thesis
    by (simp add: totalCount_def denominator_def sum_list_triv)
qed

lemma compareWords_greedy:
  "compareWords U opts first second =
     (if first = [] \<or> second = [] \<or> denominator opts first second = 0 then 0
      else min 100 (int ((matchedWeight U opts first second * 2 * 100)
                          div denominator opts first second)))"
  by (simp add: compareWords_def matchLoop_greedy matchedWeight_def totalCount_denominator
      Let_def min_def)

text \<open>
  C3, as the code has it: for non-empty token lists the percentage is the integer
  quotient of \<open>matchedWeight * 2 * 100\<close> by the denominator, rounded down, and clamped to
  100 (and 0 when the denominator is 0, which a length-weighted comparison of empty
  tokens gives); the matched weight is that of the greedy first-fit matching, the
  denominator the summed token lengths or the token count of both files; the result is
  in [0,100].
\<close>

theorem compareWords_percentage:
  "first \<noteq> [] \<Longrightarrow> second \<noteq> [] \<Longrightarrow>
   compareWords U opts first second =
     (if denominator opts first second = 0 then 0
      else min 100 (int ((matchedWeight U opts first second * 2 * 100)
                          div denominator opts first second)))
   \<and> denominator opts first second =
       (if WeightByLength opts
        then sum_list (map length first) + sum_list (map length second)
        else length first + length second)
   \<and> 0 \<le> compareWords U opts first second
   \<and> compareWords U opts first second \<le> 100"
  by (simp add: compareWords_greedy totalCount_denominator [symmetric] totalCount_def)

theorem compareWords_percentage_witness:
  "[''ab'', ''cd''] \<noteq> [] \<and> [''ab''] \<noteq> []
   \<and> compareWords ascii_tables cli_fuzzy_opts [''ab'', ''cd''] [''ab''] = 66
   \<and> matchedWeight ascii_tables cli_fuzzy_opts [''ab'', ''cd''] [''ab''] = 2
   \<and> denominator cli_fuzzy_opts [''ab'', ''cd''] [''ab''] = 6"
  using compareWords_percentage
    [where first = "[''ab'', ''cd'']" and second = "[''ab'']" and opts = cli_fuzzy_opts
       and U = ascii_tables]
  by (simp add: matchedWeight_def denominator_def token_weight_def tokens_match_def
      cli_fuzzy_opts_def)

text \<open>
  C3 as stated, with \<open>round\<close> read as rounding to the nearest integer, fails: for the
  tokens \<open>ab cd\<close> against \<open>ab\<close>, length-weighted, the quotient is 400/6 = 66.67 and the
  code returns 66.
\<close>

theorem compareWords_round_counterexample:
  "compareWords ascii_tables cli_fuzzy_opts [''ab'', ''cd''] [''ab'']
   \<noteq> min 100 (round (real (matchedWeight ascii_tables cli_fuzzy_opts [''ab'', ''cd''] [''ab''] * 2 * 100)
                      / real (denominator cli_fuzzy_opts [''ab'', ''cd''] [''ab''])))"
  by (simp add: compareWords_greedy matchedWeight_def denominator_def token_weight_def
      tokens_match_def cli_fuzzy_opts_def round_def)

subsection \<open>Symmetry\<close>

lemma consume_first_eq:
  "consume_first ((=) x) ys = (if x \<in> set ys then Some (remove1 x ys) else None)"
  by (induction ys) auto

lemma mset_greedy_matched_eq:
  "mset (greedy_matched (=) xs ys) = mset xs \<inter># mset ys"
proof (induction xs arbitrary: ys)
  case Nil
  show ?case by simp
next
  case (Cons x xs)
  show ?case
  proof (cases "x \<in> set ys")
    case True
    then show ?thesis
      by (simp add: consume_first_eq Cons.IH inter_add_left2)
  next
    case False
    then show ?thesis
      by (simp add: consume_first_eq Cons.IH inter_add_left1)
  qed
qed

lemma matchedWeight_exact:
  assumes "\<not> MatchSimilar opts"
  shows "matchedWeight U opts first second =
         sum_mset (image_mset (token_weight opts) (mset first \<inter># mset second))"
proof -
  have "tokens_match U opts = (=)"
    using assms by (auto simp: fun_eq_iff tokens_match_def)
  then have "matchedWeight U opts first second =
      sum_list (map (token_weight opts) (greedy_matched (=) first second))"
    by (simp add: matchedWeight_def)
  also have "\<dots> = sum_mset (image_mset (token_weight opts) (mset (greedy_matched (=) first second)))"
    by (simp add: sum_mset_sum_list [symmetric])
  finally show ?thesis
    by (simp add: mset_greedy_matched_eq)
qed

text \<open>
  C2, as the code has it: with similar-word matching switched off the fuzzy score is
  symmetric, for both weightings and all token lists.
\<close>

theorem compareWords_symmetric_exact:
  "\<not> MatchSimilar opts \<Longrightarrow>
   compareWords U opts first second = compareWords U opts second first"
  by (simp add: compareWords_greedy matchedWeight_exact denominator_def subset_mset.inf_commute add.commute)

theorem compareWords_symmetric_exact_witness:
  "\<not> MatchSimilar (cli_fuzzy_opts\<lparr>MatchSimilar := False\<rparr>)
   \<and> compareWords ascii_tables (cli_fuzzy_opts\<lparr>MatchSimilar := False\<rparr>) [''ab'', ''cd''] [''cd'', ''xyz''] = 44
   \<and> compareWords ascii_tables (cli_fuzzy_opts\<lparr>MatchSimilar := False\<rparr>) [''cd'', ''xyz''] [''ab'', ''cd''] = 44"
  using compareWords_symmetric_exact
    [where opts = "cli_fuzzy_opts\<lparr>MatchSimilar := False\<rparr>" and U = ascii_tables
       and first = "[''ab'', ''cd'']" and second = "[''cd'', ''xyz'']"]
  by (simp add: compareWords_greedy matchedWeight_def denominator_def token_weight_def
      tokens_match_def cli_fuzzy_opts_def)

text \<open>
  C2 as stated fails with the options of the command line: the token \<open>ab\<close> is a
  substring of \<open>abc\<close>, the pair is matched in both directions, and the matched weight
  is the length of the token of the first list: 80 one way, 100 the other.
\<close>

theorem compareWords_symmetric_counterexample:
  "compareWords ascii_tables cli_fuzzy_opts [''ab''] [''abc''] = 80
   \<and> compareWords ascii_tables cli_fuzzy_opts [''abc''] [''ab''] = 100"
  by (simp add: compareWords_greedy matchedWeight_def denominator_def token_weight_def
      tokens_match_def cli_fuzzy_opts_def isSimilar_def HasPrefix_def)

section \<open>Properties of the word extraction\<close>

lemmas string_eval =
  ToLower_def isASCII_def byte_of_def RuneSelf_def toLowerByte_def Ext_def
  IsPathSeparator_def TrimSuffix_def HasSuffix_def replaceSeparators_def replacers_def
  ReplaceAll_def Fields_def asciiSpace_def strippedName_def normalizedName_def

lemma normalizedName_report: "normalizedName U ''Report-2023.TXT'' = ''report 2023''"
  by (simp add: string_eval char_of_def bit_0)

lemma Fields_report: "Fields U ''report 2023'' = [''report'', ''2023'']"
  by (simp add: string_eval)

lemma extractWords_report: "extractWords U ''Report-2023.TXT'' = [''report'', ''2023'']"
  using normalizedName_report [of U]
  by (simp add: extractWords_def normalizedName_def strippedName_def Fields_report)

text \<open>
  What \<open>fs.extractWords\<close> does as it is written: the word list is never empty. Either
  every token is a white-space separated field, of at least 2 bytes, of the lowercased,
  extension-stripped name with its separators replaced by spaces; or the list is the
  single fallback token, which is that name with the separators replaced, lowercased
  again, and then no field has 2 bytes or more.
\<close>

lemma extractWords_fields:
  "extractWords U filename \<noteq> []
   \<and> (list_all (\<lambda>t. 2 \<le> length t \<and> t \<in> set (Fields U (normalizedName U filename)))
         (extractWords U filename)
      \<or> extractWords U filename = [ToLower U (normalizedName U filename)]
        \<and> \<not> list_ex (\<lambda>part. 2 \<le> length part) (Fields U (normalizedName U filename)))"
proof (cases "filter (\<lambda>part. 2 \<le> length part) (Fields U (normalizedName U filename)) = []")
  case True
  then have "extractWords U filename = [ToLower U (normalizedName U filename)]"
    by (simp add: extractWords_def normalizedName_def strippedName_def Let_def)
  moreover from True have
    "\<not> list_ex (\<lambda>part. 2 \<le> length part) (Fields U (normalizedName U filename))"
    by (auto simp: list_ex_iff filter_empty_conv)
  ultimately show ?thesis by simp
next
  case False
  then have "extractWords U filename
      = filter (\<lambda>part. 2 \<le> length part) (Fields U (normalizedName U filename))"
    by (simp add: extractWords_def normalizedName_def strippedName_def Let_def)
  with False show ?thesis
    by (simp add: list_all_iff)
qed

text \<open>
  The fallback is taken after the separators were replaced, in \<open>fs.extractWords\<close> as in
  \<open>matcher.ExtractWords\<close>: for \<open>-_-.txt\<close> the token is three spaces. It can be shorter
  than 2 bytes.
\<close>

lemma extractWords_fallback_replaced:
  "strippedName ascii_tables ''-_-.txt'' = ''-_-''
   \<and> extractWords ascii_tables ''-_-.txt'' = [''   '']"
  by (simp add: extractWords_def string_eval)

lemma extractWords_short_fallback: "extractWords ascii_tables ''a.txt'' = [''a'']"
  by (simp add: extractWords_def string_eval)

subsection \<open>Fields without a letter or digit\<close>

lemma containsAlphaNumeric_punct:
  "\<not> containsAlphaNumeric U ''++''" "containsAlphaNumeric U ''a1''"
  by (simp_all add: containsAlphaNumeric_def runes_def isASCII_def byte_of_def RuneSelf_def
      IsLetter_def IsDigit_def)

lemma normalizedName_punct:
  "normalizedName U ''++ ++.txt'' = ''++ ++''"
  "normalizedName U ''++ a1.txt'' = ''++ a1''"
  "normalizedName U ''++++++++ a1.txt'' = ''++++++++ a1''"
  "normalizedName U ''++++++++ b2.txt'' = ''++++++++ b2''"
  by (simp_all add: string_eval)

lemma Fields_punct:
  "Fields U ''++ ++'' = [''++'', ''++'']"
  "Fields U ''++ a1'' = [''++'', ''a1'']"
  "Fields U ''++++++++ a1'' = [''++++++++'', ''a1'']"
  "Fields U ''++++++++ b2'' = [''++++++++'', ''b2'']"
  by (simp_all add: string_eval)

lemma lower_ext_punct:
  "ToLower U (Ext (ToLower U ''++ ++.txt'')) = Ext (ToLower U ''++ ++.txt'')"
  "ToLower U (Ext (ToLower U ''++ a1.txt'')) = Ext (ToLower U ''++ a1.txt'')"
  "ToLower U (Ext (ToLower U ''++++++++ a1.txt'')) = Ext (ToLower U ''++++++++ a1.txt'')"
  "ToLower U (Ext (ToLower U ''++++++++ b2.txt'')) = Ext (ToLower U ''++++++++ b2.txt'')"
  by (simp_all add: string_eval)

lemma containsAlphaNumeric_plus:
  "\<not> containsAlphaNumeric U ''++++++++''" "containsAlphaNumeric U ''b2''"
  by (simp_all add: containsAlphaNumeric_def runes_def isASCII_def byte_of_def RuneSelf_def
      IsLetter_def IsDigit_def)

lemma extractWords_punct:
  "extractWords U ''++ ++.txt'' = [''++'', ''++'']"
  "extractWords U ''++ a1.txt'' = [''++'', ''a1'']"
  "extractWords U ''++++++++ a1.txt'' = [''++++++++'', ''a1'']"
  "extractWords U ''++++++++ b2.txt'' = [''++++++++'', ''b2'']"
  using normalizedName_punct [of U]
  by (simp_all add: extractWords_def normalizedName_def strippedName_def Fields_punct)

lemma ExtractWords_punct:
  "ExtractWords U ''++ ++.txt'' = [''++ ++'']"
  "ExtractWords U ''++ a1.txt'' = [''a1'']"
  "ExtractWords U ''++++++++ a1.txt'' = [''a1'']"
  "ExtractWords U ''++++++++ b2.txt'' = [''b2'']"
  using normalizedName_punct [of U]
  by (simp_all add: ExtractWords_def lower_ext_punct normalizedName_def strippedName_def
      Fields_punct containsAlphaNumeric_punct containsAlphaNumeric_plus)

lemma compareWords_punct:
  "compareWords U cli_fuzzy_opts [''++++++++'', ''a1''] [''++++++++'', ''b2''] = 80"
  "compareWords U cli_fuzzy_opts [''a1''] [''b2''] = 0"
  by (simp_all add: compareWords_greedy matchedWeight_def denominator_def token_weight_def
      tokens_match_def cli_fuzzy_opts_def isSimilar_def HasPrefix_def isNumeric_def
      runes_def isASCII_def byte_of_def RuneSelf_def IsDigit_def ContainsRune_def)

text \<open>
  C5: \<open>fs.extractWords\<close>, the function \<open>File.ExtractWords\<close> calls, keeps every field of
  2 bytes or more; it does not test for a letter or digit. For the all-punctuation name
  \<open>++ ++.txt\<close> it returns the two tokens \<open>++\<close> and \<open>++\<close>, not one fallback token, and for
  \<open>++ a1.txt\<close> it returns \<open>++\<close> beside \<open>a1\<close>; no letter or digit is in \<open>++\<close>. The sibling
  \<open>matcher.ExtractWords\<close> has the test and returns the single fallback token \<open>++ ++\<close> and
  the list \<open>[a1]\<close>. The tokens kept decide the grouping: the names \<open>++++++++ a1.txt\<close> and
  \<open>++++++++ b2.txt\<close> score 80, the default threshold of a fuzzy scan, with the word
  lists of \<open>fs.extractWords\<close>, and 0 with those of \<open>matcher.ExtractWords\<close>.
\<close>

theorem extractWords_keeps_punctuation:
  "extractWords U ''++ ++.txt'' = [''++'', ''++'']
   \<and> extractWords U ''++ a1.txt'' = [''++'', ''a1'']
   \<and> containsAlphaNumeric U ''++'' = False
   \<and> ExtractWords U ''++ ++.txt'' = [''++ ++'']
   \<and> ExtractWords U ''++ a1.txt'' = [''a1'']
   \<and> compareWords U cli_fuzzy_opts
        (extractWords U ''++++++++ a1.txt'') (extractWords U ''++++++++ b2.txt'') = 80
   \<and> compareWords U cli_fuzzy_opts
        (ExtractWords U ''++++++++ a1.txt'') (ExtractWords U ''++++++++ b2.txt'') = 0"
  by (simp add: extractWords_punct ExtractWords_punct containsAlphaNumeric_punct
      compareWords_punct)

section \<open>Properties of hashing and of the exact scorer\<close>

lemma HashFile_loop_readable:
  "badFrom d = None \<Longrightarrow> HashFile_loop d pos h = Inr (md5 (h @ drop pos (content d)))"
proof (induction d pos h rule: HashFile_loop.induct)
  case (1 d pos hasher)
  have r: "readable d = content d"
    using "1.prems" by (simp add: readable_def)
  show ?case
  proof (cases "pos < length (content d)")
    case False
    then show ?thesis
      using "1.prems" r by (subst HashFile_loop.simps) (simp add: Read_def)
  next
    case True
    define chunk where "chunk = take ChunkSize (drop pos (content d))"
    have rd: "Read d pos ChunkSize = Inr chunk"
      using True r by (simp add: Read_def chunk_def)
    have ne: "length chunk \<noteq> 0"
      using True by (simp add: chunk_def ChunkSize_def)
    have rest: "chunk @ drop (pos + length chunk) (content d) = drop pos (content d)"
    proof -
      have "drop (pos + length chunk) (content d) = drop (length chunk) (drop pos (content d))"
        by (simp add: add.commute)
      also have "\<dots> = drop ChunkSize (drop pos (content d))"
        by (cases "ChunkSize \<le> length (content d) - pos") (simp_all add: chunk_def min_def)
      finally have e: "drop (pos + length chunk) (content d) = drop ChunkSize (drop pos (content d))" .
      have "chunk @ drop ChunkSize (drop pos (content d)) = drop pos (content d)"
        unfolding chunk_def by (rule append_take_drop_id)
      with e show ?thesis by (simp only:)
    qed
    have "HashFile_loop d pos hasher = HashFile_loop d (pos + length chunk) (hasher @ chunk)"
      using rd ne by (subst HashFile_loop.simps) simp
    also have "\<dots> = Inr (md5 ((hasher @ chunk) @ drop (pos + length chunk) (content d)))"
      using "1.IH" [OF rd ne "1.prems"] .
    finally show ?thesis
      using rest by simp
  qed
qed

lemma HashFile_readsAs:
  "readsAs disk r c \<Longrightarrow> HashFile disk (Path r) = Inr (md5 c)"
  by (simp add: readsAs_def HashFile_def HashFile_loop_readable)

lemma HashFilePartial_readsAs:
  "readsAs disk r c \<Longrightarrow> HashFilePartial disk (Path r) = Inr (md5 (partialWindow c))"
  by (simp add: readsAs_def HashFilePartial_def Read_def readable_def partialWindow_def)

lemma readsAs_unique: "readsAs disk r c \<Longrightarrow> readsAs disk r c' \<Longrightarrow> c = c'"
  by (simp add: readsAs_def)

lemma GetDigest_result:
  "readsAs disk (heap w f) c \<Longrightarrow> cachesValid (heap w f) c \<Longrightarrow>
   fst (GetDigest disk w f) = Inr (md5 c)"
  by (auto simp: GetDigest_def cachesValid_def calculateFileHash_def HashFile_readsAs
      split: option.splits)

lemma GetDigest_heap:
  "readsAs disk (heap w f) c \<Longrightarrow> cachesValid (heap w f) c \<Longrightarrow>
   heap (snd (GetDigest disk w f)) = (heap w)(f := (heap w f)\<lparr>Digest := Some (md5 c)\<rparr>)"
  by (auto simp: GetDigest_def cachesValid_def calculateFileHash_def HashFile_readsAs
      setFile_def fun_eq_iff split: option.splits)

lemma GetPartialDigest_result:
  "readsAs disk (heap w f) c \<Longrightarrow> cachesValid (heap w f) c \<Longrightarrow>
   fst (GetPartialDigest disk w f) =
     Inr (if Size (heap w f) < int MinPartialSize then md5 c else md5 (partialWindow c))"
  by (auto simp: GetPartialDigest_def cachesValid_def calculatePartialFileHash_def
      HashFilePartial_readsAs GetDigest_result split: option.splits)

lemma GetPartialDigest_heap:
  "readsAs disk (heap w f) c \<Longrightarrow> cachesValid (heap w f) c \<Longrightarrow>
   heap (snd (GetPartialDigest disk w f)) =
     (heap w)(f := if Size (heap w f) < int MinPartialSize
                   then (heap w f)\<lparr>Digest := Some (md5 c)\<rparr>
                   else (heap w f)\<lparr>DigestPart := Some (md5 (partialWindow c))\<rparr>)"
  by (auto simp: GetPartialDigest_def cachesValid_def calculatePartialFileHash_def
      HashFilePartial_readsAs GetDigest_heap setFile_def fun_eq_iff split: option.splits)

lemma readsAs_update [simp]:
  "readsAs disk (r\<lparr>Digest := x\<rparr>) c = readsAs disk r c"
  "readsAs disk (r\<lparr>DigestPart := y\<rparr>) c = readsAs disk r c"
  by (simp_all add: readsAs_def)

lemma GetDigest_keeps:
  assumes "readsAs disk (heap w f) c" "cachesValid (heap w f) c"
    and "readsAs disk (heap w g) c'" "cachesValid (heap w g) c'"
  shows "readsAs disk (heap (snd (GetDigest disk w f)) g) c'
         \<and> cachesValid (heap (snd (GetDigest disk w f)) g) c'"
proof (cases "g = f")
  case True
  with assms have "c' = c" by (auto dest: readsAs_unique)
  with True assms show ?thesis
    by (simp add: GetDigest_heap cachesValid_def)
next
  case False
  with assms show ?thesis
    by (simp add: GetDigest_heap)
qed

lemma GetPartialDigest_keeps:
  assumes "readsAs disk (heap w f) c" "cachesValid (heap w f) c"
    and "readsAs disk (heap w g) c'" "cachesValid (heap w g) c'"
  shows "readsAs disk (heap (snd (GetPartialDigest disk w f)) g) c'
         \<and> cachesValid (heap (snd (GetPartialDigest disk w f)) g) c'"
proof (cases "g = f")
  case True
  with assms have "c' = c" by (auto dest: readsAs_unique)
  with True assms show ?thesis
    by (auto simp: GetPartialDigest_heap cachesValid_def)
next
  case False
  with assms show ?thesis
    by (simp add: GetPartialDigest_heap)
qed

lemma describes_readsAs: "describes disk r c \<Longrightarrow> readsAs disk r c"
  by (simp add: describes_def readsAs_def)

subsection \<open>Two messages with the same MD5 digest\<close>

text \<open>The two blocks of each message, step by step: message words, the four rounds, the block.\<close>

lemma words_a1: "words_le collision_a1 =
     [0x02dd31d1, 0xc4eee6c5, 0x069a3d69, 0x5cf9af98,
      0x87b5ca2f, 0xab7e4612, 0x3e580440, 0x897ffbb8,
      0x0634ad55, 0x02b3f409, 0x8388e483, 0x5a417125,
      0xe8255108, 0x9fc9cdf7, 0xf2bd1dd9, 0x5b3c3780]"
  by (simp add: collision_a1_def le32_def)

lemma round1_a1:
  "fold (md5_step F1
     [0x02dd31d1, 0xc4eee6c5, 0x069a3d69, 0x5cf9af98,
      0x87b5ca2f, 0xab7e4612, 0x3e580440, 0x897ffbb8,
      0x0634ad55, 0x02b3f409, 0x8388e483, 0x5a417125,
      0xe8255108, 0x9fc9cdf7, 0xf2bd1dd9, 0x5b3c3780]) table1
     (0x67452301, 0xefcdab89, 0x98badcfe, 0x10325476) =
     (0x715ff408, 0x2d8b8334, 0x715d8a20, 0x14cbf5f8)"
  by (simp add: md5_step_def F1_def rotl32_def table1_def)

lemma round2_a1:
  "fold (md5_step F2
     [0x02dd31d1, 0xc4eee6c5, 0x069a3d69, 0x5cf9af98,
      0x87b5ca2f, 0xab7e4612, 0x3e580440, 0x897ffbb8,
      0x0634ad55, 0x02b3f409, 0x8388e483, 0x5a417125,
      0xe8255108, 0x9fc9cdf7, 0xf2bd1dd9, 0x5b3c3780]) table2
     (0x715ff408, 0x2d8b8334, 0x715d8a20, 0x14cbf5f8) =
     (0x58dd88c2, 0x8f25d190, 0x9f30104a, 0x539b9c53)"
  by (simp add: md5_step_def F2_def rotl32_def table2_def)

lemma round3_a1:
  "fold (md5_step F3
     [0x02dd31d1, 0xc4eee6c5, 0x069a3d69, 0x5cf9af98,
      0x87b5ca2f, 0xab7e4612, 0x3e580440, 0x897ffbb8,
      0x0634ad55, 0x02b3f409, 0x8388e483, 0x5a417125,
      0xe8255108, 0x9fc9cdf7, 0xf2bd1dd9, 0x5b3c3780]) table3
     (0x58dd88c2, 0x8f25d190, 0x9f30104a, 0x539b9c53) =
     (0x32958a0a, 0x163e312a, 0xb8379d04, 0x4bd07f3f)"
  by (simp add: md5_step_def F3_def rotl32_def table3_def)

lemma round4_a1:
  "fold (md5_step F4
     [0x02dd31d1, 0xc4eee6c5, 0x069a3d69, 0x5cf9af98,
      0x87b5ca2f, 0xab7e4612, 0x3e580440, 0x897ffbb8,
      0x0634ad55, 0x02b3f409, 0x8388e483, 0x5a417125,
      0xe8255108, 0x9fc9cdf7, 0xf2bd1dd9, 0x5b3c3780]) table4
     (0x32958a0a, 0x163e312a, 0xb8379d04, 0x4bd07f3f) =
     (0xeb137023, 0x40c62c41, 0x914bff56, 0x10936990)"
  by (simp add: md5_step_def F4_def rotl32_def table4_def)

lemma block_a1:
  "md5_block (0x67452301, 0xefcdab89, 0x98badcfe, 0x10325476) (words_le collision_a1) =
     (0x52589324, 0x3093d7ca, 0x2a06dc54, 0x20c5be06)"
  by (simp add: md5_block_def words_a1 round1_a1 round2_a1 round3_a1 round4_a1)

lemma words_a2: "words_le collision_a2 =
     [0x313e82d8, 0x5b8f3456, 0xd4ac6dae, 0xc619c936,
      0xb4e253dd, 0xfd03da87, 0x06633902, 0xa0cd48d2,
      0x42339fe9, 0xe87e570f, 0x70b654ce, 0x1e0da880,
      0xbc2198c6, 0x9383a8b6, 0x2b65f996, 0x702af76f]"
  by (simp add: collision_a2_def le32_def)

lemma round1_a2:
  "fold (md5_step F1
     [0x313e82d8, 0x5b8f3456, 0xd4ac6dae, 0xc619c936,
      0xb4e253dd, 0xfd03da87, 0x06633902, 0xa0cd48d2,
      0x42339fe9, 0xe87e570f, 0x70b654ce, 0x1e0da880,
      0xbc2198c6, 0x9383a8b6, 0x2b65f996, 0x702af76f]) table1
     (0x52589324, 0x3093d7ca, 0x2a06dc54, 0x20c5be06) =
     (0x3f1ff45d, 0x612bbbd5, 0x7dc41b11, 0x40fbf2ff)"
  by (simp add: md5_step_def F1_def rotl32_def table1_def)

lemma round2_a2:
  "fold (md5_step F2
     [0x313e82d8, 0x5b8f3456, 0xd4ac6dae, 0xc619c936,
      0xb4e253dd, 0xfd03da87, 0x06633902, 0xa0cd48d2,
      0x42339fe9, 0xe87e570f, 0x70b654ce, 0x1e0da880,
      0xbc2198c6, 0x9383a8b6, 0x2b65f996, 0x702af76f]) table2
     (0x3f1ff45d, 0x612bbbd5, 0x7dc41b11, 0x40fbf2ff) =
     (0x82f21f91, 0x0839b297, 0x644e3eb8, 0x2ea5ed6f)"
  by (simp add: md5_step_def F2_def rotl32_def table2_def)

lemma round3_a2:
  "fold (md5_step F3
     [0x313e82d8, 0x5b8f3456, 0xd4ac6dae, 0xc619c936,
      0xb4e253dd, 0xfd03da87, 0x06633902, 0xa0cd48d2,
      0x42339fe9, 0xe87e570f, 0x70b654ce, 0x1e0da880,
      0xbc2198c6, 0x9383a8b6, 0x2b65f996, 0x702af76f]) table3
     (0x82f21f91, 0x0839b297, 0x644e3eb8, 0x2ea5ed6f) =
     (0xc3b50242, 0x03095eae, 0x33f7b4e6, 0x70ae9f1e)"
  by (simp add: md5_step_def F3_def rotl32_def table3_def)

lemma round4_a2:
  "fold (md5_step F4
     [0x313e82d8, 0x5b8f3456, 0xd4ac6dae, 0xc619c936,
      0xb4e253dd, 0xfd03da87, 0x06633902, 0xa0cd48d2,
      0x42339fe9, 0xe87e570f, 0x70b654ce, 0x1e0da880,
      0xbc2198c6, 0x9383a8b6, 0x2b65f996, 0x702af76f]) table4
     (0xc3b50242, 0x03095eae, 0x33f7b4e6, 0x70ae9f1e) =
     (0x3b05dcf5, 0x30ec763e, 0x47568f04, 0x425f020f)"
  by (simp add: md5_step_def F4_def rotl32_def table4_def)

lemma block_a2:
  "md5_block (0x52589324, 0x3093d7ca, 0x2a06dc54, 0x20c5be06) (words_le collision_a2) =
     (0x8d5e7019, 0x61804e08, 0x715d6b58, 0x6324c015)"
  by (simp add: md5_block_def words_a2 round1_a2 round2_a2 round3_a2 round4_a2)

lemma words_b1: "words_le collision_b1 =
     [0x02dd31d1, 0xc4eee6c5, 0x069a3d69, 0x5cf9af98,
      0x07b5ca2f, 0xab7e4612, 0x3e580440, 0x897ffbb8,
      0x0634ad55, 0x02b3f409, 0x8388e483, 0x5a41f125,
      0xe8255108, 0x9fc9cdf7, 0x72bd1dd9, 0x5b3c3780]"
  by (simp add: collision_b1_def le32_def)

lemma round1_b1:
  "fold (md5_step F1
     [0x02dd31d1, 0xc4eee6c5, 0x069a3d69, 0x5cf9af98,
      0x07b5ca2f, 0xab7e4612, 0x3e580440, 0x897ffbb8,
      0x0634ad55, 0x02b3f409, 0x8388e483, 0x5a41f125,
      0xe8255108, 0x9fc9cdf7, 0x72bd1dd9, 0x5b3c3780]) table1
     (0x67452301, 0xefcdab89, 0x98badcfe, 0x10325476) =
     (0xf25ff408, 0x8d8b8334, 0xf15d0a28, 0x94cbf5f8)"
  by (simp add: md5_step_def F1_def rotl32_def table1_def)

lemma round2_b1:
  "fold (md5_step F2
     [0x02dd31d1, 0xc4eee6c5, 0x069a3d69, 0x5cf9af98,
      0x07b5ca2f, 0xab7e4612, 0x3e580440, 0x897ffbb8,
      0x0634ad55, 0x02b3f409, 0x8388e483, 0x5a41f125,
      0xe8255108, 0x9fc9cdf7, 0x72bd1dd9, 0x5b3c3780]) table2
     (0xf25ff408, 0x8d8b8334, 0xf15d0a28, 0x94cbf5f8) =
     (0x58dd88c2, 0x8f25d190, 0x9f30104a, 0x539b9c53)"
  by (simp add: md5_step_def F2_def rotl32_def table2_def)

lemma round3_b1:
  "fold (md5_step F3
     [0x02dd31d1, 0xc4eee6c5, 0x069a3d69, 0x5cf9af98,
      0x07b5ca2f, 0xab7e4612, 0x3e580440, 0x897ffbb8,
      0x0634ad55, 0x02b3f409, 0x8388e483, 0x5a41f125,
      0xe8255108, 0x9fc9cdf7, 0x72bd1dd9, 0x5b3c3780]) table3
     (0x58dd88c2, 0x8f25d190, 0x9f30104a, 0x539b9c53) =
     (0xb2958a0a, 0x963e312a, 0x38379d04, 0xcbd07f3f)"
  by (simp add: md5_step_def F3_def rotl32_def table3_def)

lemma round4_b1:
  "fold (md5_step F4
     [0x02dd31d1, 0xc4eee6c5, 0x069a3d69, 0x5cf9af98,
      0x07b5ca2f, 0xab7e4612, 0x3e580440, 0x897ffbb8,
      0x0634ad55, 0x02b3f409, 0x8388e483, 0x5a41f125,
      0xe8255108, 0x9fc9cdf7, 0x72bd1dd9, 0x5b3c3780]) table4
     (0xb2958a0a, 0x963e312a, 0x38379d04, 0xcbd07f3f) =
     (0x6b137023, 0xc2c62c41, 0x134bff56, 0x92936990)"
  by (simp add: md5_step_def F4_def rotl32_def table4_def)

lemma block_b1:
  "md5_block (0x67452301, 0xefcdab89, 0x98badcfe, 0x10325476) (words_le collision_b1) =
     (0xd2589324, 0xb293d7ca, 0xac06dc54, 0xa2c5be06)"
  by (simp add: md5_block_def words_b1 round1_b1 round2_b1 round3_b1 round4_b1)

lemma words_b2: "words_le collision_b2 =
     [0x313e82d8, 0x5b8f3456, 0xd4ac6dae, 0xc619c936,
      0x34e253dd, 0xfd03da87, 0x06633902, 0xa0cd48d2,
      0x42339fe9, 0xe87e570f, 0x70b654ce, 0x1e0d2880,
      0xbc2198c6, 0x9383a8b6, 0xab65f996, 0x702af76f]"
  by (simp add: collision_b2_def le32_def)

lemma round1_b2:
  "fold (md5_step F1
     [0x313e82d8, 0x5b8f3456, 0xd4ac6dae, 0xc619c936,
      0x34e253dd, 0xfd03da87, 0x06633902, 0xa0cd48d2,
      0x42339fe9, 0xe87e570f, 0x70b654ce, 0x1e0d2880,
      0xbc2198c6, 0x9383a8b6, 0xab65f996, 0x702af76f]) table1
     (0xd2589324, 0xb293d7ca, 0xac06dc54, 0xa2c5be06) =
     (0xc01ff45d, 0xc12bbbd5, 0xfdc49b19, 0xc0fbf2ff)"
  by (simp add: md5_step_def F1_def rotl32_def table1_def)

lemma round2_b2:
  "fold (md5_step F2
     [0x313e82d8, 0x5b8f3456, 0xd4ac6dae, 0xc619c936,
      0x34e253dd, 0xfd03da87, 0x06633902, 0xa0cd48d2,
      0x42339fe9, 0xe87e570f, 0x70b654ce, 0x1e0d2880,
      0xbc2198c6, 0x9383a8b6, 0xab65f996, 0x702af76f]) table2
     (0xc01ff45d, 0xc12bbbd5, 0xfdc49b19, 0xc0fbf2ff) =
     (0x82f21f91, 0x0839b297, 0x644e3eb8, 0x2ea5ed6f)"
  by (simp add: md5_step_def F2_def rotl32_def table2_def)

lemma round3_b2:
  "fold (md5_step F3
     [0x313e82d8, 0x5b8f3456, 0xd4ac6dae, 0xc619c936,
      0x34e253dd, 0xfd03da87, 0x06633902, 0xa0cd48d2,
      0x42339fe9, 0xe87e570f, 0x70b654ce, 0x1e0d2880,
      0xbc2198c6, 0x9383a8b6, 0xab65f996, 0x702af76f]) table3
     (0x82f21f91, 0x0839b297, 0x644e3eb8, 0x2ea5ed6f) =
     (0x43b50242, 0x83095eae, 0xb3f7b4e6, 0xf0ae9f1e)"
  by (simp add: md5_step_def F3_def rotl32_def table3_def)

lemma round4_b2:
  "fold (md5_step F4
     [0x313e82d8, 0x5b8f3456, 0xd4ac6dae, 0xc619c936,
      0x34e253dd, 0xfd03da87, 0x06633902, 0xa0cd48d2,
      0x42339fe9, 0xe87e570f, 0x70b654ce, 0x1e0d2880,
      0xbc2198c6, 0x9383a8b6, 0xab65f996, 0x702af76f]) table4
     (0x43b50242, 0x83095eae, 0xb3f7b4e6, 0xf0ae9f1e) =
     (0xbb05dcf5, 0xaeec763e, 0xc5568f04, 0xc05f020f)"
  by (simp add: md5_step_def F4_def rotl32_def table4_def)

lemma block_b2:
  "md5_block (0xd2589324, 0xb293d7ca, 0xac06dc54, 0xa2c5be06) (words_le collision_b2) =
     (0x8d5e7019, 0x61804e08, 0x715d6b58, 0x6324c015)"
  by (simp add: md5_block_def words_b2 round1_b2 round2_b2 round3_b2 round4_b2)

lemma md5_two_blocks:
  assumes "length m1 = 64" "length m2 = 64"
  shows "md5 (m1 @ m2) =
     (case md5_blocks 1 (md5_block (md5_block md5_init (words_le m1)) (words_le m2))
             (drop 128 (md5_pad (m1 @ m2))) of
        (a, b, c, d) \<Rightarrow> bytes_le32 a @ bytes_le32 b @ bytes_le32 c @ bytes_le32 d)"
proof -
  have len: "length (md5_pad (m1 @ m2)) div 64 = Suc (Suc (Suc 0))"
    using assms by (simp add: md5_pad_def bytes_le64_def)
  have p: "md5_pad (m1 @ m2) = m1 @ m2 @ drop 128 (md5_pad (m1 @ m2))"
    using assms by (simp add: md5_pad_def)
  have "md5_blocks (Suc (Suc (Suc 0))) md5_init (m1 @ m2 @ drop 128 (md5_pad (m1 @ m2))) =
        md5_blocks (Suc 0) (md5_block (md5_block md5_init (words_le m1)) (words_le m2))
          (drop 128 (md5_pad (m1 @ m2)))"
    using assms by simp
  then show ?thesis
    using len p by (simp add: md5_def Let_def)
qed

lemma pad_tail_same:
  "length m = length m' \<Longrightarrow> drop (length m) (md5_pad m) = drop (length m') (md5_pad m')"
  by (simp add: md5_pad_def)

lemma collision_length: "length collision_a1 = 64" "length collision_a2 = 64"
  "length collision_b1 = 64" "length collision_b2 = 64"
  by (simp_all add: collision_a1_def collision_a2_def collision_b1_def collision_b2_def)

lemma md5_collision: "md5 collision_a = md5 collision_b"
proof -
  have "drop 128 (md5_pad (collision_a1 @ collision_a2)) =
        drop 128 (md5_pad (collision_b1 @ collision_b2))"
    using pad_tail_same [of "collision_a1 @ collision_a2" "collision_b1 @ collision_b2"]
    by (simp add: collision_length)
  then show ?thesis
    by (simp add: collision_a_def collision_b_def md5_two_blocks collision_length
        block_a1 block_a2 block_b1 block_b2 md5_init_def)
qed

lemma collision_differs: "collision_a \<noteq> collision_b"
  by (simp add: collision_a_def collision_b_def collision_a1_def collision_b1_def)

lemma compareFullDigests_percentage:
  assumes "readsAs disk (heap w a) cA" "cachesValid (heap w a) cA"
    and "readsAs disk (heap w b) cB" "cachesValid (heap w b) cB"
  shows "Percentage (fst (compareFullDigests disk w a b)) = (if md5 cA = md5 cB then 100 else 0)"
proof -
  obtain r1 w1 where g1: "GetDigest disk w a = (r1, w1)"
    by (cases "GetDigest disk w a")
  have r1: "r1 = Inr (md5 cA)"
    using GetDigest_result [OF assms(1,2)] g1 by simp
  have k: "readsAs disk (heap w1 b) cB \<and> cachesValid (heap w1 b) cB"
    using GetDigest_keeps [OF assms(1,2) assms(3,4)] g1 by simp
  obtain r2 w2 where g2: "GetDigest disk w1 b = (r2, w2)"
    by (cases "GetDigest disk w1 b")
  have r2: "r2 = Inr (md5 cB)"
    using GetDigest_result [of disk w1 b cB] k g2 by simp
  show ?thesis
    by (simp add: compareFullDigests_def g1 r1 g2 r2 mkMatch_def)
qed

lemma GetPartialDigest_size:
  "Size (heap (snd (GetPartialDigest disk w f)) g) = Size (heap w g)"
  by (auto simp: GetPartialDigest_def GetDigest_def calculatePartialFileHash_def
      calculateFileHash_def setFile_def split: option.splits sum.splits)

text \<open>
  The exact score of two records that read without error: 100 when the size fields are
  equal, the MD5 digests of the contents are equal and, from 3 MiB on, the MD5 digests
  of the windows are equal; 0 otherwise.
\<close>

lemma matchExact_percentage:
  assumes a: "readsAs disk (heap w a) cA" "cachesValid (heap w a) cA"
    and b: "readsAs disk (heap w b) cB" "cachesValid (heap w b) cB"
  shows "Percentage (fst (matchExact disk w a b)) =
     (if Size (heap w a) = Size (heap w b)
         \<and> (3 * 1024 * 1024 \<le> Size (heap w a) \<longrightarrow>
              md5 (partialWindow cA) = md5 (partialWindow cB))
         \<and> md5 cA = md5 cB
      then 100 else 0)"
proof (cases "Size (heap w a) = Size (heap w b)")
  case False
  then show ?thesis
    by (simp add: matchExact_def mkMatch_def)
next
  case eq: True
  show ?thesis
  proof (cases "3 * 1024 * 1024 \<le> Size (heap w a)")
    case False
    then show ?thesis
      using eq compareFullDigests_percentage [OF a b]
      by (simp add: matchExact_def)
  next
    case big: True
    have nsa: "\<not> Size (heap w a) < int MinPartialSize"
      and nsb: "\<not> Size (heap w b) < int MinPartialSize"
      using big eq by (simp_all add: MinPartialSize_def ChunkSize_def)
    obtain r1 w1 where g1: "GetPartialDigest disk w a = (r1, w1)"
      by (cases "GetPartialDigest disk w a")
    have r1: "r1 = Inr (md5 (partialWindow cA))"
      using GetPartialDigest_result [OF a] g1 nsa by simp
    have ka: "readsAs disk (heap w1 a) cA \<and> cachesValid (heap w1 a) cA"
      using GetPartialDigest_keeps [OF a a] g1 by simp
    have kb: "readsAs disk (heap w1 b) cB \<and> cachesValid (heap w1 b) cB"
      using GetPartialDigest_keeps [OF a b] g1 by simp
    obtain r2 w2 where g2: "GetPartialDigest disk w1 b = (r2, w2)"
      by (cases "GetPartialDigest disk w1 b")
    have sb1: "Size (heap w1 b) = Size (heap w b)"
      using GetPartialDigest_size [of disk w a b] g1 by simp
    have r2: "r2 = Inr (md5 (partialWindow cB))"
      using GetPartialDigest_result [of disk w1 b cB] kb g2 nsb sb1 by simp
    have ka2: "readsAs disk (heap w2 a) cA \<and> cachesValid (heap w2 a) cA"
      using GetPartialDigest_keeps [of disk w1 b cB a cA] ka kb g2 by simp
    have kb2: "readsAs disk (heap w2 b) cB \<and> cachesValid (heap w2 b) cB"
      using GetPartialDigest_keeps [of disk w1 b cB b cB] kb g2 by simp
    have full: "Percentage (fst (compareFullDigests disk w2 a b)) =
        (if md5 cA = md5 cB then 100 else 0)"
      using compareFullDigests_percentage [of disk w2 a cA b cB] ka2 kb2 by simp
    show ?thesis
      using big eq full
      by (simp add: matchExact_def g1 r1 g2 r2 mkMatch_def)
  qed
qed

text \<open>
  C6: when the two records differ in size, the exact scorer returns 0 and leaves the
  world as it was: no record is touched and the log of hash calls does not grow.
\<close>

theorem matchExact_size_mismatch:
  "Size (heap w a) \<noteq> Size (heap w b) \<Longrightarrow>
   Percentage (fst (matchExact disk w a b)) = 0
   \<and> snd (matchExact disk w a b) = w
   \<and> hashLog (snd (matchExact disk w a b)) = hashLog w"
  by (simp add: matchExact_def mkMatch_def)

theorem matchExact_size_mismatch_witness:
  "Size (heap (twoFiles (NewFileFromFileInfo ''a'' ''a'' 1 0) (NewFileFromFileInfo ''b'' ''b'' 2 0)) 0)
     \<noteq> Size (heap (twoFiles (NewFileFromFileInfo ''a'' ''a'' 1 0) (NewFileFromFileInfo ''b'' ''b'' 2 0)) 1)
   \<and> Percentage (fst (matchExact (twoFileDisk ''a'' [1] ''b'' [1, 2])
        (twoFiles (NewFileFromFileInfo ''a'' ''a'' 1 0) (NewFileFromFileInfo ''b'' ''b'' 2 0)) 0 1)) = 0
   \<and> hashLog (snd (matchExact (twoFileDisk ''a'' [1] ''b'' [1, 2])
        (twoFiles (NewFileFromFileInfo ''a'' ''a'' 1 0) (NewFileFromFileInfo ''b'' ''b'' 2 0)) 0 1)) = []"
  using matchExact_size_mismatch
    [where w = "twoFiles (NewFileFromFileInfo ''a'' ''a'' 1 0) (NewFileFromFileInfo ''b'' ''b'' 2 0)"
       and a = 0 and b = 1 and disk = "twoFileDisk ''a'' [1] ''b'' [1, 2]"]
  by (simp add: twoFiles_def NewFileFromFileInfo_def)

text \<open>With equal sizes the scorer does hash: two small files without cached digests are each read in full.\<close>

lemma matchExact_equal_size_log:
  "hashLog (snd (matchExact (twoFileDisk ''a'' [1] ''b'' [2])
      (twoFiles (NewFileFromFileInfo ''a'' ''a'' 1 0) (NewFileFromFileInfo ''b'' ''b'' 1 0)) 0 1))
   = [FullHash ''a'', FullHash ''b'']"
proof -
  have h: "HashFile (twoFileDisk ''a'' [1] ''b'' [2]) ''a'' = Inr (md5 [1])"
    "HashFile (twoFileDisk ''a'' [1] ''b'' [2]) ''b'' = Inr (md5 [2])"
    by (simp_all add: HashFile_def twoFileDisk_def HashFile_loop_readable)
  show ?thesis
    by (simp add: matchExact_def compareFullDigests_def GetDigest_def calculateFileHash_def
        twoFiles_def NewFileFromFileInfo_def setFile_def h)
qed

subsection \<open>Partial digests and the exact score\<close>

text \<open>The digests of the one-byte messages \<open>a\<close> and \<open>b\<close>, evaluated step by step.\<close>

lemma replicate_numeral: "replicate (numeral k) x = x # replicate (pred_numeral k) x"
  by (simp add: numeral_eq_Suc)

lemma words_x: "words_le (take 64 (md5_pad [0x61])) =
     [0x00008061, 0x00000000, 0x00000000, 0x00000000,
      0x00000000, 0x00000000, 0x00000000, 0x00000000,
      0x00000000, 0x00000000, 0x00000000, 0x00000000,
      0x00000000, 0x00000000, 0x00000008, 0x00000000]"
  by (simp add: md5_pad_def bytes_le64_def le32_def replicate_numeral)

lemma round1_x:
  "fold (md5_step F1
     [0x00008061, 0x00000000, 0x00000000, 0x00000000,
      0x00000000, 0x00000000, 0x00000000, 0x00000000,
      0x00000000, 0x00000000, 0x00000000, 0x00000000,
      0x00000000, 0x00000000, 0x00000008, 0x00000000]) table1
     (0x67452301, 0xefcdab89, 0x98badcfe, 0x10325476) =
     (0x44244cf8, 0xf01e3ce2, 0x6360a45f, 0xd0fe9b27)"
  by (simp add: md5_step_def F1_def rotl32_def table1_def)

lemma round2_x:
  "fold (md5_step F2
     [0x00008061, 0x00000000, 0x00000000, 0x00000000,
      0x00000000, 0x00000000, 0x00000000, 0x00000000,
      0x00000000, 0x00000000, 0x00000000, 0x00000000,
      0x00000000, 0x00000000, 0x00000008, 0x00000000]) table2
     (0x44244cf8, 0xf01e3ce2, 0x6360a45f, 0xd0fe9b27) =
     (0x93842e98, 0x3745961f, 0x94a2ebee, 0xc7043b64)"
  by (simp add: md5_step_def F2_def rotl32_def table2_def)

lemma round3_x:
  "fold (md5_step F3
     [0x00008061, 0x00000000, 0x00000000, 0x00000000,
      0x00000000, 0x00000000, 0x00000000, 0x00000000,
      0x00000000, 0x00000000, 0x00000000, 0x00000000,
      0x00000000, 0x00000000, 0x00000008, 0x00000000]) table3
     (0x93842e98, 0x3745961f, 0x94a2ebee, 0xc7043b64) =
     (0x0ac50e18, 0x918f93bb, 0x8a4a6356, 0x79ca7845)"
  by (simp add: md5_step_def F3_def rotl32_def table3_def)

lemma round4_x:
  "fold (md5_step F4
     [0x00008061, 0x00000000, 0x00000000, 0x00000000,
      0x00000000, 0x00000000, 0x00000000, 0x00000000,
      0x00000000, 0x00000000, 0x00000000, 0x00000000,
      0x00000000, 0x00000000, 0x00000008, 0x00000000]) table4
     (0x0ac50e18, 0x918f93bb, 0x8a4a6356, 0x79ca7845) =
     (0x52309e0b, 0xb8e94637, 0x49dee633, 0x50f422f3)"
  by (simp add: md5_step_def F4_def rotl32_def table4_def)

lemma md5_x: "md5 [0x61] =
     [0x0c, 0xc1, 0x75, 0xb9, 0xc0, 0xf1, 0xb6, 0xa8, 0x31, 0xc3, 0x99, 0xe2, 0x69, 0x77, 0x26, 0x61]"
proof -
  have "length (md5_pad [0x61]) div 64 = Suc 0"
    by (simp add: md5_pad_def bytes_le64_def)
  then show ?thesis
    by (simp add: md5_def Let_def md5_block_def md5_init_def words_x round1_x round2_x round3_x round4_x bytes_le32_def)
qed

lemma words_y: "words_le (take 64 (md5_pad [0x62])) =
     [0x00008062, 0x00000000, 0x00000000, 0x00000000,
      0x00000000, 0x00000000, 0x00000000, 0x00000000,
      0x00000000, 0x00000000, 0x00000000, 0x00000000,
      0x00000000, 0x00000000, 0x00000008, 0x00000000]"
  by (simp add: md5_pad_def bytes_le64_def le32_def replicate_numeral)

lemma round1_y:
  "fold (md5_step F1
     [0x00008062, 0x00000000, 0x00000000, 0x00000000,
      0x00000000, 0x00000000, 0x00000000, 0x00000000,
      0x00000000, 0x00000000, 0x00000000, 0x00000000,
      0x00000000, 0x00000000, 0x00000008, 0x00000000]) table1
     (0x67452301, 0xefcdab89, 0x98badcfe, 0x10325476) =
     (0xd45fddb8, 0x3ab57ceb, 0xe49e275a, 0x213176c5)"
  by (simp add: md5_step_def F1_def rotl32_def table1_def)

lemma round2_y:
  "fold (md5_step F2
     [0x00008062, 0x00000000, 0x00000000, 0x00000000,
      0x00000000, 0x00000000, 0x00000000, 0x00000000,
      0x00000000, 0x00000000, 0x00000000, 0x00000000,
      0x00000000, 0x00000000, 0x00000008, 0x00000000]) table2
     (0xd45fddb8, 0x3ab57ceb, 0xe49e275a, 0x213176c5) =
     (0xd640a65d, 0x87452a50, 0xaf8146b1, 0x340a4011)"
  by (simp add: md5_step_def F2_def rotl32_def table2_def)

lemma round3_y:
  "fold (md5_step F3
     [0x00008062, 0x00000000, 0x00000000, 0x00000000,
      0x00000000, 0x00000000, 0x00000000, 0x00000000,
      0x00000000, 0x00000000, 0x00000000, 0x00000000,
      0x00000000, 0x00000000, 0x00000008, 0x00000000]) table3
     (0xd640a65d, 0x87452a50, 0xaf8146b1, 0x340a4011) =
     (0x5e89adfe, 0x0711cecc, 0x8b6d0d14, 0x5d8b252b)"
  by (simp add: md5_step_def F3_def rotl32_def table3_def)

lemma round4_y:
  "fold (md5_step F4
     [0x00008062, 0x00000000, 0x00000000, 0x00000000,
      0x00000000, 0x00000000, 0x00000000, 0x00000000,
      0x00000000, 0x00000000, 0x00000000, 0x00000000,
      0x00000000, 0x00000000, 0x00000008, 0x00000000]) table4
     (0x5e89adfe, 0x0711cecc, 0x8b6d0d14, 0x5d8b252b) =
     (0x971ac891, 0xfc62035d, 0xde61fa3c, 0x7f24dcff)"
  by (simp add: md5_step_def F4_def rotl32_def table4_def)

lemma md5_y: "md5 [0x62] =
     [0x92, 0xeb, 0x5f, 0xfe, 0xe6, 0xae, 0x2f, 0xec, 0x3a, 0xd7, 0x1c, 0x77, 0x75, 0x31, 0x57, 0x8f]"
proof -
  have "length (md5_pad [0x62]) div 64 = Suc 0"
    by (simp add: md5_pad_def bytes_le64_def)
  then show ?thesis
    by (simp add: md5_def Let_def md5_block_def md5_init_def words_y round1_y round2_y round3_y round4_y bytes_le32_def)
qed

text \<open>
  C8: for a record that describes a readable file, with valid caches, the partial
  digest of a file below 3 MiB is what \<open>GetDigest\<close> returns (the same call, with the same
  effect), and the partial digest of a file of 3 MiB or more is the MD5 digest of the
  window of 16384 bytes at offset 16384.
\<close>

theorem GetPartialDigest_window:
  "describes disk (heap w f) c \<Longrightarrow> cachesValid (heap w f) c \<Longrightarrow>
   (Size (heap w f) < 3 * 1024 * 1024 \<longrightarrow>
      GetPartialDigest disk w f = GetDigest disk w f
      \<and> fst (GetPartialDigest disk w f) = Inr (md5 c))
   \<and> (3 * 1024 * 1024 \<le> Size (heap w f) \<longrightarrow>
      fst (GetPartialDigest disk w f) = Inr (md5 (take 16384 (drop 16384 c)))
      \<and> length (take 16384 (drop 16384 c)) = 16384)"
proof (intro conjI impI)
  assume d: "describes disk (heap w f) c" and v: "cachesValid (heap w f) c"
  note r = describes_readsAs [OF d]
  {
    assume small: "Size (heap w f) < 3 * 1024 * 1024"
    then have s: "Size (heap w f) < int MinPartialSize"
      by (simp add: MinPartialSize_def ChunkSize_def)
    with v have "DigestPart (heap w f) = None"
      by (auto simp: cachesValid_def)
    with s show "GetPartialDigest disk w f = GetDigest disk w f"
      by (simp add: GetPartialDigest_def)
    with r v show "fst (GetPartialDigest disk w f) = Inr (md5 c)"
      by (simp add: GetDigest_result)
  }
  {
    assume big: "3 * 1024 * 1024 \<le> Size (heap w f)"
    then have s: "\<not> Size (heap w f) < int MinPartialSize"
      by (simp add: MinPartialSize_def ChunkSize_def)
    show "fst (GetPartialDigest disk w f) = Inr (md5 (take 16384 (drop 16384 c)))"
      using GetPartialDigest_result [OF r v] s
      by (simp add: partialWindow_def PartialSize_def PartialOffset_def)
    from d big have "3 * 1024 * 1024 \<le> length c"
      by (simp add: describes_def)
    then show "length (take 16384 (drop 16384 c)) = 16384"
      by simp
  }
qed

theorem GetPartialDigest_window_witness:
  "describes (twoFileDisk ''s'' [1, 2, 3] ''l'' (replicate 3145728 0))
     (heap (twoFiles (NewFileFromFileInfo ''s'' ''s'' 3 0)
                     (NewFileFromFileInfo ''l'' ''l'' 3145728 0)) 0) [1, 2, 3]
   \<and> describes (twoFileDisk ''s'' [1, 2, 3] ''l'' (replicate 3145728 0))
     (heap (twoFiles (NewFileFromFileInfo ''s'' ''s'' 3 0)
                     (NewFileFromFileInfo ''l'' ''l'' 3145728 0)) 1) (replicate 3145728 0)
   \<and> fst (GetPartialDigest (twoFileDisk ''s'' [1, 2, 3] ''l'' (replicate 3145728 0))
       (twoFiles (NewFileFromFileInfo ''s'' ''s'' 3 0)
                 (NewFileFromFileInfo ''l'' ''l'' 3145728 0)) 0) = Inr (md5 [1, 2, 3])
   \<and> fst (GetPartialDigest (twoFileDisk ''s'' [1, 2, 3] ''l'' (replicate 3145728 0))
       (twoFiles (NewFileFromFileInfo ''s'' ''s'' 3 0)
                 (NewFileFromFileInfo ''l'' ''l'' 3145728 0)) 1) = Inr (md5 (replicate 16384 0))"
proof -
  let ?disk = "twoFileDisk ''s'' [1, 2, 3] ''l'' (replicate 3145728 0)"
  let ?w = "twoFiles (NewFileFromFileInfo ''s'' ''s'' 3 0) (NewFileFromFileInfo ''l'' ''l'' 3145728 0)"
  have d0: "describes ?disk (heap ?w 0) [1, 2, 3]"
    by (simp add: describes_def twoFileDisk_def twoFiles_def NewFileFromFileInfo_def)
  have v0: "cachesValid (heap ?w 0) [1, 2, 3]"
    by (simp add: cachesValid_def twoFiles_def NewFileFromFileInfo_def)
  have d1: "describes ?disk (heap ?w 1) (replicate 3145728 0)"
    by (simp add: describes_def twoFileDisk_def twoFiles_def NewFileFromFileInfo_def)
  have v1: "cachesValid (heap ?w 1) (replicate 3145728 0)"
    by (simp add: cachesValid_def twoFiles_def NewFileFromFileInfo_def)
  have s0: "Size (heap ?w 0) < 3 * 1024 * 1024" and s1: "3 * 1024 * 1024 \<le> Size (heap ?w 1)"
    by (simp_all add: twoFiles_def NewFileFromFileInfo_def)
  from GetPartialDigest_window [OF d0 v0] s0
  have r0: "fst (GetPartialDigest ?disk ?w 0) = Inr (md5 [1, 2, 3])"
    by blast
  from GetPartialDigest_window [OF d1 v1] s1
  have "fst (GetPartialDigest ?disk ?w 1) = Inr (md5 (take 16384 (drop 16384 (replicate 3145728 0))))"
    by blast
  then have r1: "fst (GetPartialDigest ?disk ?w 1) = Inr (md5 (replicate 16384 0))"
    by simp
  from d0 d1 r0 r1 show ?thesis by blast
qed

text \<open>
  C1, as the code has it: for two records whose files read without error, with valid
  caches, identical contents score 100 when the size fields are equal and 0 when they
  differ; with equal size fields, contents whose MD5 digests differ score 0, and so do
  contents of 3 MiB or more whose windows of 16384 bytes at offset 16384 have different
  MD5 digests; with equal size fields, contents that have the same MD5 digest and, from
  3 MiB on, the same MD5 digest of the window score 100, whether the bytes are the same
  or not.
\<close>

theorem matchExact_content:
  "readsAs disk (heap w a) cA \<Longrightarrow> cachesValid (heap w a) cA \<Longrightarrow>
   readsAs disk (heap w b) cB \<Longrightarrow> cachesValid (heap w b) cB \<Longrightarrow>
   (cA = cB \<and> Size (heap w a) = Size (heap w b) \<longrightarrow>
      Percentage (fst (matchExact disk w a b)) = 100)
   \<and> (Size (heap w a) \<noteq> Size (heap w b) \<longrightarrow>
        Percentage (fst (matchExact disk w a b)) = 0)
   \<and> (Size (heap w a) = Size (heap w b) \<and> md5 cA \<noteq> md5 cB \<longrightarrow>
        Percentage (fst (matchExact disk w a b)) = 0)
   \<and> (Size (heap w a) = Size (heap w b) \<and> 3 * 1024 * 1024 \<le> Size (heap w a)
        \<and> md5 (take 16384 (drop 16384 cA)) \<noteq> md5 (take 16384 (drop 16384 cB)) \<longrightarrow>
        Percentage (fst (matchExact disk w a b)) = 0)
   \<and> (Size (heap w a) = Size (heap w b) \<and> md5 cA = md5 cB
        \<and> (3 * 1024 * 1024 \<le> Size (heap w a) \<longrightarrow>
             md5 (take 16384 (drop 16384 cA)) = md5 (take 16384 (drop 16384 cB))) \<longrightarrow>
        Percentage (fst (matchExact disk w a b)) = 100)"
  using matchExact_percentage [of disk w a cA b cB]
  by (auto simp: partialWindow_def PartialSize_def PartialOffset_def)

theorem matchExact_content_witness:
  "readsAs (twoFileDisk ''a'' [0x61] ''b'' [0x61])
     (heap (twoFiles (NewFileFromFileInfo ''a'' ''a'' 1 0) (NewFileFromFileInfo ''b'' ''b'' 1 0)) 0) [0x61]
   \<and> Percentage (fst (matchExact (twoFileDisk ''a'' [0x61] ''b'' [0x61])
        (twoFiles (NewFileFromFileInfo ''a'' ''a'' 1 0) (NewFileFromFileInfo ''b'' ''b'' 1 0)) 0 1)) = 100
   \<and> md5 [0x61] \<noteq> md5 [0x62]
   \<and> Percentage (fst (matchExact (twoFileDisk ''a'' [0x61] ''b'' [0x62])
        (twoFiles (NewFileFromFileInfo ''a'' ''a'' 1 0) (NewFileFromFileInfo ''b'' ''b'' 1 0)) 0 1)) = 0
   \<and> md5 collision_a = md5 collision_b
   \<and> Percentage (fst (matchExact (twoFileDisk ''a'' collision_a ''b'' collision_b)
        (twoFiles (NewFileFromFileInfo ''a'' ''a'' 128 0) (NewFileFromFileInfo ''b'' ''b'' 128 0)) 0 1)) = 100"
proof -
  let ?w = "twoFiles (NewFileFromFileInfo ''a'' ''a'' 1 0) (NewFileFromFileInfo ''b'' ''b'' 1 0)"
  let ?v = "twoFiles (NewFileFromFileInfo ''a'' ''a'' 128 0) (NewFileFromFileInfo ''b'' ''b'' 128 0)"
  have d1: "readsAs (twoFileDisk ''a'' [0x61] ''b'' [0x61]) (heap ?w 0) [0x61]"
    and d2: "readsAs (twoFileDisk ''a'' [0x61] ''b'' [0x61]) (heap ?w 1) [0x61]"
    and e1: "readsAs (twoFileDisk ''a'' [0x61] ''b'' [0x62]) (heap ?w 0) [0x61]"
    and e2: "readsAs (twoFileDisk ''a'' [0x61] ''b'' [0x62]) (heap ?w 1) [0x62]"
    and f1: "readsAs (twoFileDisk ''a'' collision_a ''b'' collision_b) (heap ?v 0) collision_a"
    and f2: "readsAs (twoFileDisk ''a'' collision_a ''b'' collision_b) (heap ?v 1) collision_b"
    by (simp_all add: readsAs_def twoFileDisk_def twoFiles_def NewFileFromFileInfo_def)
  have v: "cachesValid (heap ?w 0) c" "cachesValid (heap ?w 1) c"
    "cachesValid (heap ?v 0) c" "cachesValid (heap ?v 1) c" for c
    by (simp_all add: cachesValid_def twoFiles_def NewFileFromFileInfo_def)
  have sz: "Size (heap ?w 0) = Size (heap ?w 1)" "Size (heap ?v 0) = Size (heap ?v 1)"
    "\<not> 3 * 1024 * 1024 \<le> Size (heap ?v 0)"
    by (simp_all add: twoFiles_def NewFileFromFileInfo_def)
  have ne: "md5 [0x61] \<noteq> md5 [0x62]"
    by (simp add: md5_x md5_y)
  have same: "Percentage (fst (matchExact (twoFileDisk ''a'' [0x61] ''b'' [0x61]) ?w 0 1)) = 100"
    using matchExact_content [OF d1 v(1) d2 v(2)] sz(1) by blast
  have diff: "Percentage (fst (matchExact (twoFileDisk ''a'' [0x61] ''b'' [0x62]) ?w 0 1)) = 0"
    using matchExact_content [OF e1 v(1) e2 v(2)] ne sz(1) by blast
  have coll: "Percentage (fst (matchExact (twoFileDisk ''a'' collision_a ''b'' collision_b) ?v 0 1)) = 100"
    using matchExact_content [OF f1 v(3) f2 v(4)] md5_collision sz(2,3) by blast
  from d1 same ne diff md5_collision coll show ?thesis by blast
qed

text \<open>
  C1 as stated fails in both halves. Equal size and different bytes do not give 0 where
  MD5 collides: the two messages above have 128 bytes each and differ, and files holding
  them score 100. Identical bytes do not give 100 where the size fields differ: for a
  file \<open>f\<close> of two bytes and a symbolic link \<open>l\<close> to it, the scan builds a record of size
  2 and a record of size 1, the length of the link; both paths read as the same two
  bytes, and the records score 0.
\<close>

theorem matchExact_content_counterexample:
  "length collision_a = length collision_b \<and> collision_a \<noteq> collision_b
   \<and> Percentage (fst (matchExact (twoFileDisk ''a.bin'' collision_a ''b.bin'' collision_b)
        (twoFiles (NewFileFromFileInfo ''a.bin'' ''a.bin'' 128 0)
                  (NewFileFromFileInfo ''b.bin'' ''b.bin'' 128 0)) 0 1)) = 100
   \<and> readsAs (twoFileDisk ''f'' [0x61, 0x62] ''l'' [0x61, 0x62])
        (heap (twoFiles (NewFileFromFileInfo ''f'' ''f'' 2 0) (NewFileFromFileInfo ''l'' ''l'' 1 0)) 0)
        [0x61, 0x62]
   \<and> readsAs (twoFileDisk ''f'' [0x61, 0x62] ''l'' [0x61, 0x62])
        (heap (twoFiles (NewFileFromFileInfo ''f'' ''f'' 2 0) (NewFileFromFileInfo ''l'' ''l'' 1 0)) 1)
        [0x61, 0x62]
   \<and> Percentage (fst (matchExact (twoFileDisk ''f'' [0x61, 0x62] ''l'' [0x61, 0x62])
        (twoFiles (NewFileFromFileInfo ''f'' ''f'' 2 0) (NewFileFromFileInfo ''l'' ''l'' 1 0)) 0 1)) = 0"
proof -
  let ?disk = "twoFileDisk ''a.bin'' collision_a ''b.bin'' collision_b"
  let ?w = "twoFiles (NewFileFromFileInfo ''a.bin'' ''a.bin'' 128 0)
                     (NewFileFromFileInfo ''b.bin'' ''b.bin'' 128 0)"
  let ?links = "twoFileDisk ''f'' [0x61, 0x62] ''l'' [0x61, 0x62]"
  let ?v = "twoFiles (NewFileFromFileInfo ''f'' ''f'' 2 0) (NewFileFromFileInfo ''l'' ''l'' 1 0)"
  have la: "length collision_a = 128" and lb: "length collision_b = 128"
    by (simp_all add: collision_a_def collision_b_def collision_length)
  have da: "readsAs ?disk (heap ?w 0) collision_a"
    by (simp add: readsAs_def twoFileDisk_def twoFiles_def NewFileFromFileInfo_def)
  have va: "cachesValid (heap ?w 0) collision_a"
    by (simp add: cachesValid_def twoFiles_def NewFileFromFileInfo_def)
  have db: "readsAs ?disk (heap ?w 1) collision_b"
    by (simp add: readsAs_def twoFileDisk_def twoFiles_def NewFileFromFileInfo_def)
  have vb: "cachesValid (heap ?w 1) collision_b"
    by (simp add: cachesValid_def twoFiles_def NewFileFromFileInfo_def)
  have sz: "Size (heap ?w 0) = 128" "Size (heap ?w 1) = 128"
    by (simp_all add: twoFiles_def NewFileFromFileInfo_def)
  have coll: "Percentage (fst (matchExact ?disk ?w 0 1)) = 100"
    using matchExact_percentage [OF da va db vb] sz
    by (simp add: md5_collision)
  have rf: "readsAs ?links (heap ?v 0) [0x61, 0x62]" "readsAs ?links (heap ?v 1) [0x61, 0x62]"
    by (simp_all add: readsAs_def twoFileDisk_def twoFiles_def NewFileFromFileInfo_def)
  have link: "Percentage (fst (matchExact ?links ?v 0 1)) = 0"
    by (simp add: matchExact_def mkMatch_def twoFiles_def NewFileFromFileInfo_def)
  from la lb collision_differs coll rf link show ?thesis by simp
qed

section \<open>Properties of the scanner and the engine\<close>

lemma walkDir_invariant:
  assumes step: "\<And>path entry err st r st'. I st \<Longrightarrow> fn path entry err st = (r, st') \<Longrightarrow> I st'"
  shows "I st \<Longrightarrow> walkDir fn d st = (r, st') \<Longrightarrow> I st'"
    and "I st \<Longrightarrow> walkDirs fn ds st = (r, st') \<Longrightarrow> I st'"
  using step
proof (induction fn d st and fn ds st arbitrary: r st' and r st' rule: walkDir_walkDirs.induct)
  case (1 fn path name info st)
  from "1.prems"(2) have "fn path (Some (FileEntry path name info)) None st = (r, st')"
    by simp
  from "1.prems"(3) [OF "1.prems"(1) this] show ?case .
next
  case (2 fn path name dirs rdErr st)
  note step = "2.prems"(3)
  obtain r1 st1 where f1: "fn path (Some (DirEntry path name dirs rdErr)) None st = (r1, st1)"
    by (cases "fn path (Some (DirEntry path name dirs rdErr)) None st")
  have i1: "I st1" using step [OF "2.prems"(1) f1] .
  show ?case
  proof (cases r1)
    case Continue
    show ?thesis
    proof (cases rdErr)
      case None
      with "2.prems"(2) f1 Continue have "walkDirs fn dirs st1 = (r, st')" by simp
      with "2.IH"(1) [OF f1 [symmetric] Continue None i1 _ step] show ?thesis by simp
    next
      case (Some err)
      obtain r2 st2 where f2:
        "fn path (Some (DirEntry path name dirs rdErr)) (Some err) st1 = (r2, st2)"
        by (cases "fn path (Some (DirEntry path name dirs rdErr)) (Some err) st1")
      have i2: "I st2" using step [OF i1 f2] .
      show ?thesis
      proof (cases r2)
        case c2: Continue
        with "2.prems"(2) f1 Continue Some f2 have "walkDirs fn dirs st2 = (r, st')" by simp
        with "2.IH"(2) [OF f1 [symmetric] Continue Some f2 [symmetric] c2 i2 _ step]
        show ?thesis by simp
      next
        case SkipDir
        with "2.prems"(2) f1 Continue Some f2 i2 show ?thesis by simp
      next
        case (Abort e)
        with "2.prems"(2) f1 Continue Some f2 i2 show ?thesis by simp
      qed
    qed
  next
    case SkipDir
    with "2.prems"(2) f1 i1 show ?thesis by simp
  next
    case (Abort e)
    with "2.prems"(2) f1 i1 show ?thesis by simp
  qed
next
  case (3 fn st)
  then show ?case by simp
next
  case (4 fn d1 ds st)
  note step = "4.prems"(3)
  obtain r1 st1 where w1: "walkDir fn d1 st = (r1, st1)"
    by (cases "walkDir fn d1 st")
  have i1: "I st1" using "4.IH"(1) [OF "4.prems"(1) w1 step] .
  show ?case
  proof (cases r1)
    case Continue
    with "4.prems"(2) w1 have "walkDirs fn ds st1 = (r, st')" by simp
    with "4.IH"(2) [OF w1 [symmetric] Continue i1 _ step] show ?thesis by simp
  next
    case SkipDir
    with "4.prems"(2) w1 i1 show ?thesis by simp
  next
    case (Abort e)
    with "4.prems"(2) w1 i1 show ?thesis by simp
  qed
qed

lemma extends_refl: "extends w w"
  by (simp add: extends_def)

lemma extends_trans: "extends w w1 \<Longrightarrow> extends w1 w2 \<Longrightarrow> extends w w2"
  by (auto simp: extends_def)

lemma scanCallback_fresh:
  "freshFiles w0 st \<Longrightarrow> scanCallback E d recursive path entry err st = (r, st') \<Longrightarrow>
   freshFiles w0 st'"
  by (cases st)
     (auto simp: scanCallback_def allocFile_def freshFiles_def extends_def
        split: option.splits dirent.splits if_splits sum.splits)

lemma WalkDir_fresh:
  assumes "freshFiles w0 st" "WalkDir E rootPath (scanCallback E d recursive) st = (r, st')"
  shows "freshFiles w0 st'"
proof (cases "Lstat E rootPath")
  case (Inl err)
  with assms show ?thesis
    by (auto simp: WalkDir_def split: prod.splits walkResult.splits dest: scanCallback_fresh)
next
  case (Inr info)
  obtain r1 st1 where w: "walkDir (scanCallback E d recursive) info st = (r1, st1)"
    by (cases "walkDir (scanCallback E d recursive) info st")
  have "freshFiles w0 st1"
    by (rule walkDir_invariant(1) [where I = "freshFiles w0", OF _ assms(1) w])
       (rule scanCallback_fresh)
  with assms(2) Inr w show ?thesis
    by (auto simp: WalkDir_def split: walkResult.splits)
qed

lemma ScanFiles_fresh:
  assumes "ScanFiles E w d recursive = (res, w')"
  shows "extends w w'"
    and "res = Inr fs \<Longrightarrow> distinct fs \<and> set fs \<subseteq> {nextFile w ..< nextFile w'}"
proof -
  obtain r st' where wd: "WalkDir E (DirPath d) (scanCallback E d recursive) (w, []) = (r, st')"
    by (cases "WalkDir E (DirPath d) (scanCallback E d recursive) (w, [])")
  have f: "freshFiles w st'"
    by (rule WalkDir_fresh [OF _ wd]) (simp add: freshFiles_def extends_refl)
  from assms wd f show "extends w w'"
    by (cases st') (auto simp: ScanFiles_def freshFiles_def split: option.splits)
  from assms wd f show "res = Inr fs \<Longrightarrow> distinct fs \<and> set fs \<subseteq> {nextFile w ..< nextFile w'}"
    by (cases st') (auto simp: ScanFiles_def freshFiles_def split: option.splits)
qed

lemma mset_concat_mapAppend:
  "mset (concat (map snd (mapAppend m k v))) = add_mset v (mset (concat (map snd m)))"
  by (induction m k v rule: mapAppend.induct) auto

lemma foldl_addFile:
  "files (foldl (addFile w) s fs) = files s @ fs"
  "mset (concat (map snd (filesBySize (foldl (addFile w) s fs)))) =
     mset (concat (map snd (filesBySize s))) + mset fs"
  by (induction fs arbitrary: s) (simp_all add: addFile_def mset_concat_mapAppend)

lemma scanDirectory_inv:
  assumes "scanInv w0 s w" "scanDirectory E w s dir = (r, s', w')"
  shows "scanInv w0 s' w'"
proof -
  obtain res w1 where sf: "ScanFiles E w dir (Recursive s) = (res, w1)"
    by (cases "ScanFiles E w dir (Recursive s)")
  note ext = ScanFiles_fresh(1) [OF sf]
  have e0: "extends w0 w1"
    using assms(1) ext by (auto simp: scanInv_def intro: extends_trans)
  show ?thesis
  proof (cases res)
    case (Inl err)
    with assms sf e0 ext show ?thesis
      by (auto simp: scanDirectory_def scanInv_def extends_def)
  next
    case (Inr fs)
    from ScanFiles_fresh(2) [OF sf Inr]
    have d: "distinct fs" and sub: "set fs \<subseteq> {nextFile w ..< nextFile w1}" by auto
    from assms(2) sf Inr have s': "s' = foldl (addFile w1) s fs" and w': "w' = w1"
      by (auto simp: scanDirectory_def)
    have "set (files s) \<inter> set fs = {}"
      using assms(1) sub by (fastforce simp: scanInv_def)
    moreover have "nextFile w0 \<le> nextFile w" "nextFile w \<le> nextFile w1"
      using assms(1) ext by (simp_all add: scanInv_def extends_def)
    ultimately show ?thesis
      using assms(1) d sub e0
      by (fastforce simp: s' w' scanInv_def foldl_addFile)
  qed
qed

lemma scanLoop_inv:
  "scanInv w0 s w \<Longrightarrow> scanLoop E w s dirs = (r, s', w') \<Longrightarrow> scanInv w0 s' w'"
proof (induction dirs arbitrary: s w)
  case Nil
  then show ?case by simp
next
  case (Cons dirPath rest)
  show ?case
  proof (cases "NewDirectory E dirPath")
    case (Inl err)
    with Cons.prems show ?thesis by simp
  next
    case (Inr dir0)
    define dir where "dir =
      (let dir1 = (if ExcludePattern s \<noteq> None
                   then dir0\<lparr>DirExcludePattern := ExcludePattern s\<rparr> else dir0)
       in if dirPath \<in> RefDirs s then dir1\<lparr>DirIsReference := True\<rparr> else dir1)"
    obtain r1 s1 w1 where sd: "scanDirectory E w s dir = (r1, s1, w1)"
      by (cases "scanDirectory E w s dir")
    have i1: "scanInv w0 s1 w1"
      using scanDirectory_inv [OF Cons.prems(1) sd] .
    show ?thesis
    proof (cases r1)
      case None
      with Cons.prems(2) Inr sd have "scanLoop E w1 s1 rest = (r, s', w')"
        by (simp add: dir_def Let_def)
      with Cons.IH [OF i1] show ?thesis by simp
    next
      case (Some err)
      with Cons.prems(2) Inr sd i1 show ?thesis
        by (simp add: dir_def Let_def)
    qed
  qed
qed

lemma Scan_inv:
  assumes "Scan E w s = (r, s', w')"
  shows "scanInv w s' w'"
proof -
  obtain r1 where sl: "scanLoop E w (s\<lparr>files := [], filesBySize := []\<rparr>) (Directories s) = (r1, s', w')"
    using assms by (auto simp: Scan_def split: prod.splits option.splits)
  have "scanInv w (s\<lparr>files := [], filesBySize := []\<rparr>) w"
    by (simp add: scanInv_def extends_refl)
  from scanLoop_inv [OF this sl] show ?thesis .
qed

lemma Scan_extends: "Scan E w s = (r, s', w') \<Longrightarrow> extends w w'"
  using Scan_inv [of E w s r s' w'] by (simp add: scanInv_def)

lemma duplicateSize_extends:
  assumes "extends w w'" "groupsAllocated w gs"
  shows "sum_list (map (\<lambda>g. sum_list (map (\<lambda>dupe. Size (heap w' dupe)) (Duplicates g))) gs) =
         sum_list (map (\<lambda>g. sum_list (map (\<lambda>dupe. Size (heap w dupe)) (Duplicates g))) gs)"
proof -
  have "map (\<lambda>dupe. Size (heap w' dupe)) (Duplicates g) =
        map (\<lambda>dupe. Size (heap w dupe)) (Duplicates g)" if "g \<in> set gs" for g
    using that assms by (auto simp: groupsAllocated_def extends_def list_all_iff)
  then show ?thesis
    by (simp cong: map_cong)
qed

text \<open>
  C9: when the scan fails, \<open>FindDuplicates\<close> returns the error, wrapped, and no group
  list; the engine keeps the groups it had, and \<open>GetGroups\<close>, \<open>GetTotalDuplicateCount\<close>
  and \<open>GetTotalDuplicateSize\<close> report what they reported before the call.
\<close>

theorem FindDuplicates_scan_fails:
  assumes "fst (Scan E w (Scanner e)) = Inl err" and "groupsAllocated w (groups e)"
  shows "fst (FindDuplicates E w e) = Inl (Wrapped ''scan error'' err)
    \<and> groups (fst (snd (FindDuplicates E w e))) = groups e
    \<and> GetGroups (fst (snd (FindDuplicates E w e))) = GetGroups e
    \<and> GetTotalDuplicateCount (fst (snd (FindDuplicates E w e))) = GetTotalDuplicateCount e
    \<and> GetTotalDuplicateSize (snd (snd (FindDuplicates E w e))) (fst (snd (FindDuplicates E w e)))
        = GetTotalDuplicateSize w e"
proof -
  obtain s' w' where sc: "Scan E w (Scanner e) = (Inl err, s', w')"
    using assms(1) by (cases "Scan E w (Scanner e)") auto
  have fd: "FindDuplicates E w e = (Inl (Wrapped ''scan error'' err), e\<lparr>Scanner := s'\<rparr>, w')"
    by (simp add: FindDuplicates_def sc)
  have "extends w w'"
    using Scan_extends [OF sc] .
  from duplicateSize_extends [OF this assms(2)] show ?thesis
    by (simp add: fd GetGroups_def GetTotalDuplicateCount_def GetTotalDuplicateSize_def)
qed

theorem FindDuplicates_scan_fails_witness:
  "fst (Scan emptyEnv usedWorld (Scanner usedEngine))
     = Inl (Wrapped ''error creating directory object for /gone'' ErrNotExist)
   \<and> groupsAllocated usedWorld (groups usedEngine)
   \<and> fst (FindDuplicates emptyEnv usedWorld usedEngine)
     = Inl (Wrapped ''scan error'' (Wrapped ''error creating directory object for /gone'' ErrNotExist))
   \<and> GetGroups (fst (snd (FindDuplicates emptyEnv usedWorld usedEngine)))
     = [\<lparr>Reference = 0, Duplicates = [1], Matches = [mkMatch 0 1 100]\<rparr>]
   \<and> GetTotalDuplicateCount (fst (snd (FindDuplicates emptyEnv usedWorld usedEngine))) = 1
   \<and> GetTotalDuplicateSize (snd (snd (FindDuplicates emptyEnv usedWorld usedEngine)))
        (fst (snd (FindDuplicates emptyEnv usedWorld usedEngine))) = 7"
proof -
  have s: "fst (Scan emptyEnv usedWorld (Scanner usedEngine))
     = Inl (Wrapped ''error creating directory object for /gone'' ErrNotExist)"
    by (simp add: Scan_def usedEngine_def mkScanner_def NewDirectory_def emptyEnv_def mkEnv_def)
  have a: "groupsAllocated usedWorld (groups usedEngine)"
    by (simp add: groupsAllocated_def usedEngine_def usedWorld_def twoFiles_def)
  have g: "GetGroups usedEngine = [\<lparr>Reference = 0, Duplicates = [1], Matches = [mkMatch 0 1 100]\<rparr>]"
    "GetTotalDuplicateCount usedEngine = 1" "GetTotalDuplicateSize usedWorld usedEngine = 7"
    by (simp_all add: GetGroups_def GetTotalDuplicateCount_def GetTotalDuplicateSize_def
        usedEngine_def usedWorld_def twoFiles_def NewFileFromFileInfo_def)
  from FindDuplicates_scan_fails [OF s a] s a g show ?thesis
    by simp
qed

lemma globToRegex_bracket: "globToRegex ''['' = ''^([)$''"
  by (simp add: globToRegex_def ReplaceAll_def)

text \<open>
  C7 on the code: for an exclude list whose translation does not compile,
  \<open>NewScanner\<close> panics, and so does \<open>runScan\<close>, without a scan and without an error
  value for the caller; \<open>Directory.SetExcludePattern\<close>, which the program never calls,
  returns the error. The glob \<open>[\<close> is such a list.
\<close>

theorem NewScanner_invalid_pattern_panics:
  "exclude \<noteq> [] \<Longrightarrow> \<not> Compiles E (globToRegex exclude) \<Longrightarrow>
   NewScanner E dirs exclude recursive scanType minMatch
     = Panicked (''regexp: Compile('' @ globToRegex exclude @ '')'')
   \<and> runScan E w dirs exclude recursive scanType minMatch
     = Panicked (''regexp: Compile('' @ globToRegex exclude @ '')'')
   \<and> fst (SetExcludePattern E d exclude) = Some ErrInvalid"
  by (simp add: NewScanner_def runScan_def SetExcludePattern_def)

theorem NewScanner_invalid_pattern_panics_witness:
  "''['' \<noteq> [] \<and> \<not> Compiles emptyEnv (globToRegex ''['')
   \<and> runScan emptyEnv usedWorld [''/gone''] ''['' False ScanTypeContent 80
     = Panicked ''regexp: Compile(^([)$)''
   \<and> fst (SetExcludePattern emptyEnv
        \<lparr>DirPath = ''/gone'', DirName = ''gone'', DirIsReference = False,
         DirExcludePattern = None\<rparr> ''['') = Some ErrInvalid"
proof -
  have c: "\<not> Compiles emptyEnv (globToRegex ''['')"
    by (simp add: globToRegex_bracket emptyEnv_def mkEnv_def)
  from NewScanner_invalid_pattern_panics
    [where exclude = "''[''" and E = emptyEnv and w = usedWorld and dirs = "[''/gone'']"
       and recursive = False and scanType = ScanTypeContent and minMatch = 80
       and d = "\<lparr>DirPath = ''/gone'', DirName = ''gone'', DirIsReference = False,
                 DirExcludePattern = None\<rparr>", OF _ c]
  show ?thesis
    using c by (simp add: globToRegex_bracket)
qed

subsection \<open>Grouping\<close>

lemma members_append [simp]: "members (gs @ hs) = members gs @ members hs"
  by (simp add: members_def)

lemma grows_refl: "grows fs st st"
  by (simp add: grows_def members_def)

lemma grows_same_groups: "snd st' = snd st \<Longrightarrow> grows fs st st'"
  by (simp add: grows_def members_def)

lemma grows_trans:
  assumes "grows fs1 st st1" "grows fs2 st1 st2"
  shows "grows (fs1 @ fs2) st st2"
proof -
  from assms obtain n1 n2 where
    1: "snd st1 = snd st @ n1" "mset (members n1) \<subseteq># mset fs1" "list_all aligned n1" and
    2: "snd st2 = snd st1 @ n2" "mset (members n2) \<subseteq># mset fs2" "list_all aligned n2"
    by (auto simp: grows_def)
  have "snd st2 = snd st @ (n1 @ n2)"
    using 1 2 by simp
  moreover have "mset (members (n1 @ n2)) \<subseteq># mset (fs1 @ fs2)"
    using 1 2 by (simp add: mset_subset_eq_mono_add)
  moreover have "list_all aligned (n1 @ n2)"
    using 1 2 by simp
  ultimately show ?thesis
    unfolding grows_def by blast
qed

lemma grows_mono:
  "grows fs st st' \<Longrightarrow> mset fs \<subseteq># mset fs' \<Longrightarrow> grows fs' st st'"
  unfolding grows_def by (meson subset_mset.order_trans)

lemma grows_world: "grows fs (w, snd st) st' \<Longrightarrow> grows fs st st'"
  by (simp add: grows_def)

lemma matchAll_length:
  "matchAll E opts w reference ds = (ms, w') \<Longrightarrow> length ms = length ds"
  by (induction ds arbitrary: w ms w') (auto split: prod.splits)

lemma createDuplicateGroup_grows: "grows fs st (createDuplicateGroup E opts st fs)"
proof (cases fs)
  case Nil
  then show ?thesis
    by (simp add: createDuplicateGroup_def grows_refl)
next
  case (Cons reference duplicates)
  obtain ms w' where m: "matchAll E opts (fst st) reference duplicates = (ms, w')"
    by (cases "matchAll E opts (fst st) reference duplicates")
  let ?g = "\<lparr>Reference = reference, Duplicates = duplicates, Matches = ms\<rparr>"
  have "snd (createDuplicateGroup E opts st fs) = snd st @ [?g]"
    by (simp add: createDuplicateGroup_def Cons m)
  moreover have "mset (members [?g]) \<subseteq># mset fs"
    by (simp add: members_def Cons)
  moreover have "list_all aligned [?g]"
    using matchAll_length [OF m] by (simp add: aligned_def)
  ultimately show ?thesis
    unfolding grows_def by blast
qed

lemma fullHashGroups_grows:
  "grows (concat gps) st (fullHashGroups E opts st gps)"
proof (induction gps arbitrary: st)
  case Nil
  show ?case by (simp add: grows_refl)
next
  case (Cons g gps)
  show ?case
  proof (cases "length g < 2")
    case True
    have "grows (concat gps) st (fullHashGroups E opts st gps)"
      by (rule Cons.IH)
    then show ?thesis
      using True by (auto intro: grows_mono)
  next
    case False
    have "grows (g @ concat gps) st
        (fullHashGroups E opts (createDuplicateGroup E opts st g) gps)"
      by (rule grows_trans [OF createDuplicateGroup_grows Cons.IH])
    then show ?thesis
      using False by simp
  qed
qed

lemma mset_shuffle: "mset (shuffle seed xs) = mset xs"
proof (induction seed xs rule: shuffle.induct)
  case (1 xs)
  show ?case by simp
next
  case (2 n ns xs)
  show ?case
  proof (cases "xs = []")
    case True
    then show ?thesis by simp
  next
    case False
    define i where "i = n mod length xs"
    have i: "i < length xs"
      using False by (simp add: i_def)
    have "mset xs = mset (take i xs @ xs ! i # drop (Suc i) xs)"
      using id_take_nth_drop [OF i] by simp
    then show ?thesis
      using False "2.IH" [OF False] by (simp add: i_def)
  qed
qed

lemma mset_concat_cong:
  "mset xss = mset yss \<Longrightarrow> mset (concat xss) = mset (concat yss)"
  by (metis mset_concat mset_map sum_mset_sum_list)

lemma rangeMap_members:
  "rangeMap E w m = (vals, w') \<Longrightarrow> mset (concat vals) = mset (concat (map snd m))"
  by (auto simp: rangeMap_def intro!: mset_concat_cong simp: mset_shuffle)

lemma groupByFullHash_members:
  "groupByFullHash E w m fs = (m', w') \<Longrightarrow>
   mset (concat (map snd m')) \<subseteq># mset (concat (map snd m)) + mset fs"
proof (induction fs arbitrary: w m)
  case Nil
  then show ?case by simp
next
  case (Cons f rest)
  obtain r w1 where g: "GetDigest (Open E) w f = (r, w1)"
    by (cases "GetDigest (Open E) w f")
  show ?case
  proof (cases r)
    case (Inl err)
    with Cons.prems g have "groupByFullHash E w1 m rest = (m', w')" by simp
    from Cons.IH [OF this]
    have "mset (concat (map snd m')) \<subseteq># mset (concat (map snd m)) + mset rest" .
    moreover have "mset (concat (map snd m)) + mset rest
        \<subseteq># mset (concat (map snd m)) + mset (f # rest)"
      by simp
    ultimately show ?thesis
      by (rule subset_mset.order_trans)
  next
    case (Inr hash)
    with Cons.prems g have "groupByFullHash E w1 (mapAppend m hash f) rest = (m', w')"
      by simp
    from Cons.IH [OF this] show ?thesis
      by (simp add: mset_concat_mapAppend)
  qed
qed
lemma groupByHash_members:
  "groupByHash E w m fs = (m', w') \<Longrightarrow>
   mset (concat (map snd m')) \<subseteq># mset (concat (map snd m)) + mset fs"
proof (induction fs arbitrary: w m)
  case Nil
  then show ?case by simp
next
  case (Cons f rest)
  obtain r w1 where g:
    "(if Size (heap w f) \<ge> 3 * 1024 * 1024 then GetPartialDigest (Open E) w f
      else GetDigest (Open E) w f) = (r, w1)"
    by (cases "if Size (heap w f) \<ge> 3 * 1024 * 1024 then GetPartialDigest (Open E) w f
      else GetDigest (Open E) w f")
  show ?case
  proof (cases r)
    case (Inl err)
    with Cons.prems g have "groupByHash E w1 m rest = (m', w')" by simp
    from Cons.IH [OF this]
    have "mset (concat (map snd m')) \<subseteq># mset (concat (map snd m)) + mset rest" .
    moreover have "mset (concat (map snd m)) + mset rest
        \<subseteq># mset (concat (map snd m)) + mset (f # rest)"
      by simp
    ultimately show ?thesis
      by (rule subset_mset.order_trans)
  next
    case (Inr hash)
    with Cons.prems g have "groupByHash E w1 (mapAppend m hash f) rest = (m', w')"
      by simp
    from Cons.IH [OF this] show ?thesis
      by (simp add: mset_concat_mapAppend)
  qed
qed

lemma hashGroups_grows:
  "grows (concat gps) st (hashGroups E opts st gps)"
proof (induction gps arbitrary: st)
  case Nil
  show ?case by (simp add: grows_refl)
next
  case (Cons g gps)
  show ?case
  proof (cases "length g < 2")
    case True
    have "grows (concat gps) st (hashGroups E opts st gps)"
      by (rule Cons.IH)
    then show ?thesis
      using True by (auto intro: grows_mono)
  next
    case False
    show ?thesis
    proof (cases "Size (heap (fst st) (hd g)) \<ge> 3 * 1024 * 1024")
      case big: True
      obtain m w1 where gf: "groupByFullHash E (fst st) [] g = (m, w1)"
        by (cases "groupByFullHash E (fst st) [] g")
      obtain fgs w2 where rm: "rangeMap E w1 m = (fgs, w2)"
        by (cases "rangeMap E w1 m")
      have sub: "mset (concat fgs) \<subseteq># mset g"
        using groupByFullHash_members [OF gf] rangeMap_members [OF rm] by simp
      have "grows (concat fgs) (w2, snd st) (fullHashGroups E opts (w2, snd st) fgs)"
        by (rule fullHashGroups_grows)
      then have "grows g st (fullHashGroups E opts (w2, snd st) fgs)"
        using sub by (auto intro: grows_mono grows_world)
      from grows_trans [OF this Cons.IH]
      show ?thesis
        using False big gf rm by simp
    next
      case small: False
      have "grows (g @ concat gps) st
          (hashGroups E opts (createDuplicateGroup E opts st g) gps)"
        by (rule grows_trans [OF createDuplicateGroup_grows Cons.IH])
      then show ?thesis
        using False small by simp
    qed
  qed
qed

lemma processExactMatches_grows:
  "grows fs st (processExactMatches E opts st fs)"
proof -
  obtain m w1 where gh: "groupByHash E (fst st) [] fs = (m, w1)"
    by (cases "groupByHash E (fst st) [] fs")
  obtain gps w2 where rm: "rangeMap E w1 m = (gps, w2)"
    by (cases "rangeMap E w1 m")
  have sub: "mset (concat gps) \<subseteq># mset fs"
    using groupByHash_members [OF gh] rangeMap_members [OF rm] by simp
  have "grows (concat gps) (w2, snd st) (hashGroups E opts (w2, snd st) gps)"
    by (rule hashGroups_grows)
  then have "grows fs st (hashGroups E opts (w2, snd st) gps)"
    using sub by (auto intro: grows_mono grows_world)
  then show ?thesis
    by (simp add: processExactMatches_def gh rm)
qed
lemma distinct_subset_mset:
  assumes "distinct xs" "set xs \<subseteq> set ys"
  shows "mset xs \<subseteq># mset ys"
proof (rule mset_subset_eqI)
  fix a
  show "count (mset xs) a \<le> count (mset ys) a"
  proof (cases "a \<in> set xs")
    case True
    then have "count (mset xs) a = 1"
      using assms(1) by (simp add: distinct_count_atmost_1)
    moreover have "a \<in># mset ys"
      using True assms(2) by auto
    then have "1 \<le> count (mset ys) a"
      by (simp add: Suc_le_eq)
    ultimately show ?thesis by simp
  next
    case False
    then have "a \<notin># mset xs"
      by simp
    then have "count (mset xs) a = 0"
      by (metis not_in_iff)
    then show ?thesis by (simp only: le0)
  qed
qed

lemma fuzzyInner_inv:
  "fuzzyInner E opts f (w, ms, ds, P) todo = (w', ms', ds', P') \<Longrightarrow>
   P = P0 \<union> set ds \<Longrightarrow> set ds \<inter> P0 = {} \<Longrightarrow> distinct ds \<Longrightarrow> f \<notin> set ds \<Longrightarrow>
   length ms = length ds \<Longrightarrow> set ds \<subseteq> A \<Longrightarrow> set todo \<subseteq> A \<Longrightarrow>
   P' = P0 \<union> set ds' \<and> set ds' \<inter> P0 = {} \<and> distinct ds' \<and> f \<notin> set ds'
   \<and> length ms' = length ds' \<and> set ds' \<subseteq> A"
proof (induction todo arbitrary: w ms ds P)
  case Nil
  then show ?case by auto
next
  case (Cons other rest)
  show ?case
  proof (cases "f = other \<or> other \<in> P")
    case True
    with Cons.prems(1) have "fuzzyInner E opts f (w, ms, ds, P) rest = (w', ms', ds', P')"
      by auto
    from Cons.IH [OF this Cons.prems(2-7)] Cons.prems(8) show ?thesis by simp
  next
    case False
    obtain m w1 where mm: "Matcher_Match (Unicode E) (Open E) opts w f other = (m, w1)"
      by (cases "Matcher_Match (Unicode E) (Open E) opts w f other")
    show ?thesis
    proof (cases "Percentage m \<ge> MinMatchPercent opts")
      case hit: True
      with Cons.prems(1) False mm have
        "fuzzyInner E opts f (w1, ms @ [m], ds @ [other], insert other P) rest = (w', ms', ds', P')"
        by simp
      moreover have "insert other P = P0 \<union> set (ds @ [other])"
        using Cons.prems(2) by auto
      moreover have "set (ds @ [other]) \<inter> P0 = {}"
        using Cons.prems(2,3) False by auto
      moreover have "distinct (ds @ [other])"
        using Cons.prems(2,4) False by auto
      moreover have "f \<notin> set (ds @ [other])"
        using Cons.prems(5) False by auto
      moreover have "length (ms @ [m]) = length (ds @ [other])"
        using Cons.prems(6) by simp
      moreover have "set (ds @ [other]) \<subseteq> A" "set rest \<subseteq> A"
        using Cons.prems(7,8) by auto
      ultimately show ?thesis
        by (rule Cons.IH)
    next
      case miss: False
      with Cons.prems(1) False mm have
        "fuzzyInner E opts f (w1, ms, ds, P) rest = (w', ms', ds', P')"
        by simp
      from Cons.IH [OF this Cons.prems(2-7)] Cons.prems(8) show ?thesis by simp
    qed
  qed
qed

lemma fuzzyOuter_inv:
  "fuzzyOuter E opts fs (w, gs0 @ new, P) todo = (w', gs', P') \<Longrightarrow>
   distinct (members new) \<Longrightarrow> set (members new) = P \<Longrightarrow> P \<subseteq> set fs \<Longrightarrow>
   list_all aligned new \<Longrightarrow> set todo \<subseteq> set fs \<Longrightarrow>
   \<exists>new'. gs' = gs0 @ new' \<and> distinct (members new') \<and> set (members new') \<subseteq> set fs
          \<and> list_all aligned new'"
proof (induction todo arbitrary: w new P)
  case Nil
  then show ?case by auto
next
  case (Cons f todo)
  show ?case
  proof (cases "f \<in> P")
    case True
    with Cons.prems(1) have "fuzzyOuter E opts fs (w, gs0 @ new, P) todo = (w', gs', P')"
      by simp
    from Cons.IH [OF this Cons.prems(2-5)] Cons.prems(6) show ?thesis by simp
  next
    case False
    obtain w1 ms ds P1 where fi: "fuzzyInner E opts f (w, [], [], P) fs = (w1, ms, ds, P1)"
      by (cases "fuzzyInner E opts f (w, [], [], P) fs") auto
    from fuzzyInner_inv [OF fi, of P "set fs"]
    have inner: "P1 = P \<union> set ds" "set ds \<inter> P = {}" "distinct ds" "f \<notin> set ds"
      "length ms = length ds" "set ds \<subseteq> set fs"
      by simp_all
    show ?thesis
    proof (cases "length ds > 0")
      case False
      with Cons.prems(1) \<open>f \<notin> P\<close> fi inner(1) have
        "fuzzyOuter E opts fs (w1, gs0 @ new, P) todo = (w', gs', P')"
        by simp
      from Cons.IH [OF this Cons.prems(2-5)] Cons.prems(6) show ?thesis by simp
    next
      case True
      let ?g = "\<lparr>Reference = f, Duplicates = ds, Matches = ms\<rparr>"
      from Cons.prems(1) \<open>f \<notin> P\<close> fi True have
        "fuzzyOuter E opts fs (w1, gs0 @ (new @ [?g]), insert f P1) todo = (w', gs', P')"
        by simp
      moreover have "distinct (members (new @ [?g]))"
        using Cons.prems(2,3) \<open>f \<notin> P\<close> inner by (auto simp: members_def)
      moreover have "set (members (new @ [?g])) = insert f P1"
        using Cons.prems(3) inner(1) by (auto simp: members_def)
      moreover have "insert f P1 \<subseteq> set fs"
        using Cons.prems(4,6) inner(1,6) by auto
      moreover have "list_all aligned (new @ [?g])"
      proof -
        have "aligned ?g"
          using inner(5) by (simp add: aligned_def)
        with Cons.prems(5) show ?thesis by simp
      qed
      moreover have "set todo \<subseteq> set fs"
        using Cons.prems(6) by simp
      ultimately show ?thesis
        by (rule Cons.IH)
    qed
  qed
qed

lemma processFuzzyMatches_grows:
  "grows fs st (processFuzzyMatches E opts st fs)"
proof -
  obtain w' gs' P' where fo: "fuzzyOuter E opts fs (fst st, snd st @ [], {}) fs = (w', gs', P')"
    by (cases "fuzzyOuter E opts fs (fst st, snd st @ [], {}) fs") auto
  from fuzzyOuter_inv [OF fo]
  obtain new where n: "gs' = snd st @ new" "distinct (members new)"
    "set (members new) \<subseteq> set fs" "list_all aligned new"
    by (auto simp: members_def)
  have "mset (members new) \<subseteq># mset fs"
    using n(2,3) by (rule distinct_subset_mset)
  with n(1,4) have "grows fs st (w', gs')"
    unfolding grows_def by auto
  then show ?thesis
    using fo by (simp add: processFuzzyMatches_def)
qed

lemma processFileGroup_grows:
  "grows fs st (processFileGroup E opts st fs)"
  by (simp add: processFileGroup_def grows_refl processExactMatches_grows
      processFuzzyMatches_grows)

lemma processAll_grows:
  "grows (concat buckets) st (foldl (processFileGroup E opts) st buckets)"
proof (induction buckets arbitrary: st)
  case Nil
  show ?case by (simp add: grows_refl)
next
  case (Cons b bs)
  have "grows (b @ concat bs) st
      (foldl (processFileGroup E opts) (processFileGroup E opts st b) bs)"
    by (rule grows_trans [OF processFileGroup_grows Cons.IH])
  then show ?case by simp
qed

subsection \<open>The orders the environment can pick\<close>

lemma shuffle_complete:
  "mset ys = mset xs \<Longrightarrow> \<exists>seed. shuffle seed xs = ys"
proof (induction ys arbitrary: xs)
  case Nil
  then have "shuffle [] xs = []" by simp
  then show ?case ..
next
  case (Cons y ys)
  from Cons.prems have "y \<in> set xs"
    by (metis list.set_intros(1) mset_eq_setD)
  then obtain i where i: "i < length xs" "xs ! i = y"
    by (auto simp: in_set_conv_nth)
  let ?rest = "take i xs @ drop (Suc i) xs"
  have "mset xs = add_mset y (mset ?rest)"
    using id_take_nth_drop [OF i(1)] i(2) by (metis mset.simps(2) mset_append union_mset_add_mset_right)
  with Cons.prems have "mset ys = mset ?rest"
    by simp
  from Cons.IH [OF this] obtain seed where s: "shuffle seed ?rest = ys" ..
  have "xs \<noteq> []"
    using i(1) by auto
  then have "shuffle (i # seed) xs = y # ys"
    using i s by simp
  then show ?case ..
qed

text \<open>
  Where the run of \<open>sort.Slice\<close> is not written out, every rearrangement of the slice
  that is in order is a result of \<open>sortSlice\<close> for some order picked by the environment.
\<close>

lemma insertionSort_sorted:
  "sorted_wrt (\<lambda>a b. \<not> lt b a) ys \<Longrightarrow> insertionSort lt ys = ys"
proof -
  have "sorted_wrt (\<lambda>a b. \<not> lt b a) ys \<Longrightarrow>
        foldl (\<lambda>done x. insertLeft lt x done) [] ys = rev ys"
  proof (induction ys rule: rev_induct)
    case Nil
    show ?case by simp
  next
    case (snoc x ys)
    then have ih: "foldl (\<lambda>done x. insertLeft lt x done) [] ys = rev ys"
      and le: "\<forall>y \<in> set ys. \<not> lt x y"
      by (simp_all add: sorted_wrt_append)
    have "insertLeft lt x (rev ys) = x # rev ys"
    proof (cases "rev ys")
      case Nil
      then show ?thesis by simp
    next
      case (Cons y zs)
      then have "y \<in> set ys"
        by (metis list.set_intros(1) set_rev)
      with le Cons show ?thesis by simp
    qed
    with ih show ?case by simp
  qed
  then show "sorted_wrt (\<lambda>a b. \<not> lt b a) ys \<Longrightarrow> insertionSort lt ys = ys"
    by (simp add: insertionSort_def)
qed

lemma sortSlice_complete:
  assumes "Slice lt xs = None" "mset ys = mset xs" "sorted_wrt (\<lambda>a b. \<not> lt b a) ys"
  shows "\<exists>ord. fst (sortSlice (E\<lparr>pickOrder := ord\<rparr>) w lt xs) = ys"
proof -
  from shuffle_complete [OF assms(2)] obtain seed where "shuffle seed xs = ys" ..
  then have "fst (sortSlice (E\<lparr>pickOrder := \<lambda>n. seed\<rparr>) w lt xs) = ys"
    using assms(1,3) by (simp add: sortSlice_def insertionSort_sorted)
  then show ?thesis by (rule exI [where x = "\<lambda>n. seed"])
qed

subsection \<open>The runs of \<open>sort.Slice\<close> that are written out\<close>

lemma scanUp_bounds: "i \<le> scanUp lt data a i j1"
  by (induction lt data a i j1 rule: scanUp.induct) (subst scanUp.simps, auto)

lemma scanDown_bounds: "scanDown lt data a i j1 \<le> j1"
  by (induction lt data a i j1 rule: scanDown.induct) (subst scanDown.simps, auto)

lemma length_Swap [simp]: "length (Swap data i j) = length data"
  by (simp add: Swap_def)

lemma mset_Swap: "i < length data \<Longrightarrow> j < length data \<Longrightarrow> mset (Swap data i j) = mset data"
  by (simp add: Swap_def mset_swap)

lemma nth_Swap:
  "i < length data \<Longrightarrow> j < length data \<Longrightarrow>
   Swap data i j ! k = (if k = j then data ! i else if k = i then data ! j else data ! k)"
  by (simp add: Swap_def nth_list_update)

lemma scanUp_spec:
  "i \<le> j1 \<Longrightarrow>
   scanUp lt data a i j1 \<le> j1
   \<and> (\<forall>k. i \<le> k \<and> k < scanUp lt data a i j1 \<longrightarrow> lt (data ! k) (data ! a))
   \<and> (scanUp lt data a i j1 < j1 \<longrightarrow> \<not> lt (data ! scanUp lt data a i j1) (data ! a))"
proof (induction lt data a i j1 rule: scanUp.induct)
  case (1 lt data a i j1)
  show ?case
  proof (cases "i < j1 \<and> lt (data ! i) (data ! a)")
    case True
    then have e: "scanUp lt data a i j1 = scanUp lt data a (i + 1) j1"
      by (subst scanUp.simps) auto
    from True have le: "i + 1 \<le> j1" by simp
    note ih = "1.IH" [OF True le]
    have "\<forall>k. i \<le> k \<and> k < scanUp lt data a (i + 1) j1 \<longrightarrow> lt (data ! k) (data ! a)"
    proof (intro allI impI)
      fix k assume k: "i \<le> k \<and> k < scanUp lt data a (i + 1) j1"
      show "lt (data ! k) (data ! a)"
      proof (cases "k = i")
        case True
        with \<open>i < j1 \<and> lt (data ! i) (data ! a)\<close> show ?thesis by simp
      next
        case False
        with k have "i + 1 \<le> k" by simp
        with ih k show ?thesis by blast
      qed
    qed
    with ih show ?thesis
      unfolding e by blast
  next
    case False
    then have e: "scanUp lt data a i j1 = i"
      by (subst scanUp.simps) auto
    from False "1.prems" show ?thesis
      unfolding e by auto
  qed
qed

lemma scanDown_spec:
  "i \<le> j1 \<Longrightarrow>
   i \<le> scanDown lt data a i j1
   \<and> (\<forall>k. scanDown lt data a i j1 \<le> k \<and> k < j1 \<longrightarrow> \<not> lt (data ! k) (data ! a))
   \<and> (i < scanDown lt data a i j1 \<longrightarrow> lt (data ! (scanDown lt data a i j1 - 1)) (data ! a))"
proof (induction lt data a i j1 rule: scanDown.induct)
  case (1 lt data a i j1)
  show ?case
  proof (cases "i < j1 \<and> \<not> lt (data ! (j1 - 1)) (data ! a)")
    case True
    then have e: "scanDown lt data a i j1 = scanDown lt data a i (j1 - 1)"
      by (subst scanDown.simps) auto
    from True have le: "i \<le> j1 - 1" by auto
    note ih = "1.IH" [OF True le]
    have "\<forall>k. scanDown lt data a i (j1 - 1) \<le> k \<and> k < j1 \<longrightarrow> \<not> lt (data ! k) (data ! a)"
    proof (intro allI impI)
      fix k assume k: "scanDown lt data a i (j1 - 1) \<le> k \<and> k < j1"
      show "\<not> lt (data ! k) (data ! a)"
      proof (cases "k = j1 - 1")
        case True
        with \<open>i < j1 \<and> \<not> lt (data ! (j1 - 1)) (data ! a)\<close> show ?thesis by simp
      next
        case False
        with k have "k < j1 - 1" by linarith
        with ih k show ?thesis by blast
      qed
    qed
    with ih show ?thesis
      unfolding e by blast
  next
    case False
    then have e: "scanDown lt data a i j1 = j1"
      by (subst scanDown.simps) auto
    from False "1.prems" show ?thesis
      unfolding e by auto
  qed
qed

lemma partitionLoop_spec:
  "a < i \<Longrightarrow> i \<le> j1 \<Longrightarrow> j1 \<le> b \<Longrightarrow> b \<le> length data \<Longrightarrow> partitioned lt data a i j1 b \<Longrightarrow>
   partitionLoop lt data a i j1 = (data', j1') \<Longrightarrow>
   length data' = length data \<and> mset data' = mset data \<and> data' ! a = data ! a
   \<and> a < j1' \<and> j1' \<le> b \<and> partitioned lt data' a j1' j1' b"
proof (induction lt data a i j1 arbitrary: data' j1' rule: partitionLoop.induct)
  case (1 lt data a i j1)
  define i' where "i' = scanUp lt data a i j1"
  define j' where "j' = scanDown lt data a i' j1"
  have up: "i \<le> i'" "i' \<le> j1"
    "\<forall>k. i \<le> k \<and> k < i' \<longrightarrow> lt (data ! k) (data ! a)"
    "i' < j1 \<longrightarrow> \<not> lt (data ! i') (data ! a)"
    using scanUp_spec [OF "1.prems"(2), of lt data a] scanUp_bounds [of i lt data a j1]
    by (simp_all add: i'_def)
  have down: "i' \<le> j'" "j' \<le> j1"
    "\<forall>k. j' \<le> k \<and> k < j1 \<longrightarrow> \<not> lt (data ! k) (data ! a)"
    "i' < j' \<longrightarrow> lt (data ! (j' - 1)) (data ! a)"
    using scanDown_spec [OF up(2), of lt data a] scanDown_bounds [of lt data a i' j1]
    by (simp_all add: j'_def)
  note inv = "1.prems"(5) [unfolded partitioned_def]
  show ?case
  proof (cases "i' \<ge> j'")
    case True
    with down have eq: "i' = j'" by simp
    from True "1.prems"(6) have r: "data' = data" "j1' = j'"
      by (subst (asm) partitionLoop.simps, simp add: i'_def [symmetric] j'_def [symmetric] Let_def)+
    have "partitioned lt data a j' j' b"
      unfolding partitioned_def
    proof (intro conjI allI impI)
      fix k assume "a < k \<and> k < j'"
      then show "lt (data ! k) (data ! a)"
        using inv up(3) eq by (cases "k < i") auto
    next
      fix k assume "j' \<le> k \<and> k < b"
      then show "\<not> lt (data ! k) (data ! a)"
        using inv down(3) by (cases "k < j1") auto
    qed
    with r up down "1.prems" eq show ?thesis by auto
  next
    case False
    then have lt': "i' < j'" by simp
    with down up have hi: "lt (data ! (j' - 1)) (data ! a)" and lo: "\<not> lt (data ! i') (data ! a)"
      by auto
    then have ne: "i' \<noteq> j' - 1" by auto
    with lt' have gap: "i' + 1 \<le> j' - 1" by linarith
    define data2 where "data2 = Swap data i' (j' - 1)"
    have len: "i' < length data" "j' - 1 < length data" "a < length data"
      using lt' down(2) "1.prems" up by linarith+
    have rec: "partitionLoop lt data2 a (i' + 1) (j' - 1) = (data', j1')"
      using "1.prems"(6) False
      by (subst (asm) partitionLoop.simps)
         (simp add: i'_def [symmetric] j'_def [symmetric] Let_def data2_def)
    have a2: "data2 ! a = data ! a"
      using "1.prems"(1) up(1) gap len by (simp add: data2_def nth_Swap)
    have p2: "partitioned lt data2 a (i' + 1) (j' - 1) b"
      unfolding partitioned_def a2
    proof (intro conjI allI impI)
      fix k assume k: "a < k \<and> k < i' + 1"
      show "lt (data2 ! k) (data ! a)"
      proof (cases "k = i'")
        case True
        with hi len ne show ?thesis by (simp add: data2_def nth_Swap)
      next
        case False
        with k gap have "k < i'" "k \<noteq> j' - 1" by linarith+
        moreover from this k have "lt (data ! k) (data ! a)"
          using inv up(3) by (cases "k < i") auto
        ultimately show ?thesis
          using len by (simp add: data2_def nth_Swap)
      qed
    next
      fix k assume k: "j' - 1 \<le> k \<and> k < b"
      show "\<not> lt (data2 ! k) (data ! a)"
      proof (cases "k = j' - 1")
        case True
        with lo len ne show ?thesis by (simp add: data2_def nth_Swap)
      next
        case False
        with k gap have "j' \<le> k" "k \<noteq> i'" by linarith+
        moreover from this k have "\<not> lt (data ! k) (data ! a)"
          using inv down(3) by (cases "k < j1") auto
        ultimately show ?thesis
          using len False by (simp add: data2_def nth_Swap)
      qed
    qed
    have b2: "a < i' + 1" "j' - 1 \<le> b" "b \<le> length data2"
      using "1.prems" up down by (simp_all add: data2_def)
    from "1.IH" [OF i'_def j'_def False b2(1) gap b2(2) b2(3) [unfolded data2_def]
        p2 [unfolded data2_def] rec [unfolded data2_def]]
    have "length data' = length data2 \<and> mset data' = mset data2 \<and> data' ! a = data2 ! a
        \<and> a < j1' \<and> j1' \<le> b \<and> partitioned lt data' a j1' j1' b"
      by (simp add: data2_def)
    moreover have "mset data2 = mset data" "length data2 = length data"
      using len by (simp_all add: data2_def mset_Swap)
    ultimately show ?thesis
      using a2 by simp
  qed
qed

lemma partition_func_loop:
  "partition_func lt data0 a b pivot = (d, mid, ap) \<Longrightarrow>
   partitionLoop lt (Swap data0 a pivot) a (a + 1) b = (data', j1') \<Longrightarrow>
   d = Swap data' (j1' - 1) a \<and> mid = j1' - 1"
proof -
  assume p: "partition_func lt data0 a b pivot = (d, mid, ap)"
    and l: "partitionLoop lt (Swap data0 a pivot) a (a + 1) b = (data', j1')"
  from l have
    "(let i' = scanUp lt (Swap data0 a pivot) a (a + 1) b;
          j' = scanDown lt (Swap data0 a pivot) a i' b
      in if i' \<ge> j' then (Swap data0 a pivot, j')
         else partitionLoop lt (Swap (Swap data0 a pivot) i' (j' - 1)) a (i' + 1) (j' - 1))
     = (data', j1')"
    by (subst (asm) partitionLoop.simps) simp
  with p show ?thesis
    by (auto simp: partition_func_def Let_def split: if_splits prod.splits)
qed

lemma partition_func_spec:
  assumes "a < b" "b \<le> length data0" "a \<le> pivot" "pivot < b"
    and "partition_func lt data0 a b pivot = (d, mid, ap)"
  shows "length d = length data0 \<and> mset d = mset data0 \<and> a \<le> mid \<and> mid < b
     \<and> (\<forall>k. a \<le> k \<and> k < mid \<longrightarrow> lt (d ! k) (d ! mid))
     \<and> (\<forall>k. mid < k \<and> k < b \<longrightarrow> \<not> lt (d ! k) (d ! mid))"
proof -
  define data where "data = Swap data0 a pivot"
  obtain data' j1' where lp: "partitionLoop lt data a (a + 1) b = (data', j1')"
    by (cases "partitionLoop lt data a (a + 1) b")
  have d: "d = Swap data' (j1' - 1) a" and m: "mid = j1' - 1"
    using partition_func_loop [OF assms(5) lp [unfolded data_def]] by simp_all
  have len0: "length data = length data0" "mset data = mset data0"
    using assms by (simp_all add: data_def mset_Swap)
  have p0: "partitioned lt data a (a + 1) b b"
    by (auto simp: partitioned_def)
  have "a < a + 1" "a + 1 \<le> b" "b \<le> b" "b \<le> length data"
    using assms len0 by simp_all
  from partitionLoop_spec [OF this p0 lp]
  have sp: "length data' = length data" "mset data' = mset data" "a < j1'" "j1' \<le> b"
    "partitioned lt data' a j1' j1' b"
    by simp_all
  have in_range: "j1' - 1 < length data'" "a < length data'"
    using sp assms len0 by linarith+
  have dm: "d ! mid = data' ! a"
    using in_range by (simp add: d m nth_Swap)
  have low: "\<forall>k. a \<le> k \<and> k < mid \<longrightarrow> lt (d ! k) (d ! mid)"
  proof (intro allI impI)
    fix k assume k: "a \<le> k \<and> k < mid"
    show "lt (d ! k) (d ! mid)"
    proof (cases "k = a")
      case True
      with k have "a < j1' - 1" "j1' - 1 < j1'" unfolding m by linarith+
      with sp(5) have "lt (data' ! (j1' - 1)) (data' ! a)"
        by (simp add: partitioned_def)
      with True k in_range show ?thesis
        unfolding dm by (simp add: d m nth_Swap)
    next
      case False
      with k have "a < k" "k < j1'" "k \<noteq> j1' - 1" unfolding m by linarith+
      with sp(5) have "lt (data' ! k) (data' ! a)"
        by (simp add: partitioned_def)
      with False \<open>k \<noteq> j1' - 1\<close> in_range show ?thesis
        unfolding dm by (simp add: d nth_Swap)
    qed
  qed
  have high: "\<forall>k. mid < k \<and> k < b \<longrightarrow> \<not> lt (d ! k) (d ! mid)"
  proof (intro allI impI)
    fix k assume k: "mid < k \<and> k < b"
    then have "j1' \<le> k" "k \<noteq> a" "k \<noteq> j1' - 1"
      using sp(3) unfolding m by linarith+
    with sp(5) k have "\<not> lt (data' ! k) (data' ! a)"
      by (simp add: partitioned_def)
    with \<open>k \<noteq> a\<close> \<open>k \<noteq> j1' - 1\<close> in_range show "\<not> lt (d ! k) (d ! mid)"
      unfolding dm by (simp add: d nth_Swap)
  qed
  have "length d = length data0" "mset d = mset data0"
    using sp len0 in_range by (simp_all add: d mset_Swap)
  moreover have "a \<le> mid" "mid < b"
    using sp(3,4) unfolding m by linarith+
  ultimately show ?thesis
    using low high by blast
qed

lemma mset_insertLeft: "mset (insertLeft lt x ys) = add_mset x (mset ys)"
  by (induction ys) auto

lemma set_insertLeft: "set (insertLeft lt x ys) = insert x (set ys)"
  by (induction ys) auto

lemma mset_foldl_insertLeft:
  "mset (foldl (\<lambda>done x. insertLeft lt x done) acc xs) = mset acc + mset xs"
  by (induction xs arbitrary: acc) (simp_all add: mset_insertLeft)

lemma mset_insertionSort: "mset (insertionSort lt xs) = mset xs"
  by (simp add: insertionSort_def mset_foldl_insertLeft)

lemma length_insertionSort: "length (insertionSort lt xs) = length xs"
  using mset_insertionSort [of lt xs] by (metis size_mset)

lemma set_insertionSort: "set (insertionSort lt xs) = set xs"
  using mset_insertionSort [of lt xs] by (metis set_mset_mset)

lemma sorted_insertLeft:
  assumes "\<forall>x y. lt x y = ((k y :: nat) < k x)"
  shows "sorted_wrt (\<lambda>a b. k a \<le> k b) ys \<Longrightarrow> sorted_wrt (\<lambda>a b. k a \<le> k b) (insertLeft lt x ys)"
  using assms by (induction ys) (auto simp: set_insertLeft)

lemma sorted_foldl_insertLeft:
  assumes "\<forall>x y. lt x y = ((k y :: nat) < k x)"
  shows "sorted_wrt (\<lambda>a b. k a \<le> k b) acc \<Longrightarrow>
    sorted_wrt (\<lambda>a b. k a \<le> k b) (foldl (\<lambda>done x. insertLeft lt x done) acc xs)"
  by (induction xs arbitrary: acc) (simp_all add: sorted_insertLeft [OF assms])

lemma sorted_insertionSort:
  assumes "\<forall>x y. lt x y = ((k y :: nat) < k x)"
  shows "sorted_wrt (\<lambda>a b. k b \<le> k a) (insertionSort lt xs)"
  using sorted_foldl_insertLeft [OF assms, of "[]" xs]
  by (simp add: insertionSort_def sorted_wrt_rev)

lemma mset_insertionSort_func:
  "a \<le> b \<Longrightarrow> mset (insertionSort_func lt data a b) = mset data"
proof -
  assume "a \<le> b"
  then have "take (b - a) (drop a data) @ drop b data = drop a data"
    by (metis append_take_drop_id drop_drop le_add_diff_inverse2)
  then have "mset (take (b - a) (drop a data)) + mset (drop b data) = mset (drop a data)"
    by (metis mset_append)
  moreover have "mset (take a data) + mset (drop a data) = mset data"
    by (metis append_take_drop_id mset_append)
  ultimately show ?thesis
    by (simp add: insertionSort_func_def mset_insertionSort)
qed

lemma inOrderUpTo_spec:
  "i \<le> b \<Longrightarrow> inOrderUpTo lt data i b \<le> b
   \<and> (\<forall>j. i \<le> j \<and> j < inOrderUpTo lt data i b \<longrightarrow> \<not> lt (data ! j) (data ! (j - 1)))"
proof (induction lt data i b rule: inOrderUpTo.induct)
  case (1 lt data i b)
  show ?case
  proof (cases "i < b \<and> \<not> lt (data ! i) (data ! (i - 1))")
    case True
    then have e: "inOrderUpTo lt data i b = inOrderUpTo lt data (i + 1) b"
      by (subst inOrderUpTo.simps) auto
    from True have le: "i + 1 \<le> b" by simp
    note ih = "1.IH" [OF True le]
    have "\<forall>j. i \<le> j \<and> j < inOrderUpTo lt data (i + 1) b \<longrightarrow> \<not> lt (data ! j) (data ! (j - 1))"
    proof (intro allI impI)
      fix j assume j: "i \<le> j \<and> j < inOrderUpTo lt data (i + 1) b"
      show "\<not> lt (data ! j) (data ! (j - 1))"
      proof (cases "j = i")
        case True
        with \<open>i < b \<and> \<not> lt (data ! i) (data ! (i - 1))\<close> show ?thesis by simp
      next
        case False
        with j have "i + 1 \<le> j" by simp
        with ih j show ?thesis by blast
      qed
    qed
    with ih show ?thesis
      unfolding e by blast
  next
    case False
    then have e: "inOrderUpTo lt data i b = i"
      by (subst inOrderUpTo.simps) auto
    from "1.prems" show ?thesis
      unfolding e by auto
  qed
qed

lemma inOrderUpTo_sorted:
  assumes "\<forall>x y. lt x y = ((k y :: nat) < k x)"
    and "inOrderUpTo lt data 1 (length data) = length data" "1 \<le> length data"
  shows "sorted_wrt (\<lambda>a b. k b \<le> k a) data"
proof -
  have "transp (\<lambda>a b. k b \<le> k a)"
    by (auto simp: transp_def)
  moreover have "\<forall>i. Suc i < length data \<longrightarrow> k (data ! Suc i) \<le> k (data ! i)"
  proof (intro allI impI)
    fix i assume "Suc i < length data"
    with inOrderUpTo_spec [OF assms(3), of lt data] assms(2)
    have "\<not> lt (data ! Suc i) (data ! (Suc i - 1))"
      by (metis One_nat_def Suc_le_mono zero_le)
    with assms(1) show "k (data ! Suc i) \<le> k (data ! i)"
      by simp
  qed
  ultimately show ?thesis
    by (simp add: sorted_wrt_iff_nth_Suc_transp)
qed

lemma pdqsort_func_result:
  assumes "pdqsort_func lt data 0 (length data) limit = Some ys"
  shows "mset ys = mset data"
    and "\<forall>x y. lt x y = ((k y :: nat) < k x) \<Longrightarrow> sorted_wrt (\<lambda>a b. k b \<le> k a) ys"
proof -
  let ?n = "length data"
  have "mset ys = mset data
      \<and> ((\<forall>x y. lt x y = ((k y :: nat) < k x)) \<longrightarrow> sorted_wrt (\<lambda>a b. k b \<le> k a) ys)"
  proof (cases "?n \<le> maxInsertion")
    case True
    with assms have "ys = insertionSort lt data"
      by (simp add: pdqsort_func_def insertionSort_func_def)
    then show ?thesis
      by (simp add: mset_insertionSort sorted_insertionSort)
  next
    case big: False
    with assms obtain pivot hint where cp: "choosePivot_func lt data 0 ?n = Some (pivot, hint)"
      by (auto simp: pdqsort_func_def split: if_splits option.splits)
    have pr: "pivot < ?n"
      using cp big
      by (auto simp: choosePivot_func_def Let_def median_func_def order2_func_def maxInsertion_def
          split: if_splits prod.splits)
    show ?thesis
    proof (cases "hint = increasingHint \<and> partialInsertionSort_func lt data 0 ?n = Some True")
      case True
      with assms big cp have "ys = data"
        by (auto simp: pdqsort_func_def split: if_splits option.splits bool.splits)
      moreover from True have "inOrderUpTo lt data 1 ?n = ?n"
        by (auto simp: partialInsertionSort_func_def Let_def split: if_splits)
      ultimately show ?thesis
        using inOrderUpTo_sorted [of lt k data] big
        by (cases "length data = 0") (auto simp: maxInsertion_def)
    next
      case False
      with assms big cp obtain d mid ap where pf: "partition_func lt data 0 ?n pivot = (d, mid, ap)"
        and small: "mid \<le> maxInsertion" "?n - (mid + 1) \<le> maxInsertion"
        and ys: "ys = insertionSort_func lt (insertionSort_func lt d 0 mid) (mid + 1) ?n"
        by (auto simp: pdqsort_func_def split: if_splits option.splits bool.splits prod.splits)
      have "0 < ?n" using big by (cases data) (simp_all add: maxInsertion_def)
      from partition_func_spec [OF this _ _ pr pf]
      have sp: "length d = ?n" "mset d = mset data" "mid < ?n"
        "\<forall>j. j < mid \<longrightarrow> lt (d ! j) (d ! mid)"
        "\<forall>j. mid < j \<and> j < ?n \<longrightarrow> \<not> lt (d ! j) (d ! mid)"
        by simp_all
      have shape: "ys = insertionSort lt (take mid d) @ d ! mid # insertionSort lt (drop (mid + 1) d)"
        using sp(1,3)
        by (simp add: ys insertionSort_func_def length_insertionSort min_def
            take_Suc_conv_app_nth)
      have "mset ys = mset (take mid d) + mset (d ! mid # drop (mid + 1) d)"
        by (simp add: shape mset_insertionSort)
      also have "\<dots> = mset d"
        using sp(1,3) by (metis Cons_nth_drop_Suc Suc_eq_plus1 append_take_drop_id mset_append)
      finally have m: "mset ys = mset data"
        using sp(2) by simp
      have "sorted_wrt (\<lambda>a b. k b \<le> k a) ys" if key: "\<forall>x y. lt x y = ((k y :: nat) < k x)"
      proof -
        have lo: "\<forall>x \<in> set (take mid d). k (d ! mid) < k x"
          using sp(1,3,4) key by (auto simp: in_set_conv_nth)
        have hi: "\<forall>x \<in> set (drop (mid + 1) d). k x \<le> k (d ! mid)"
        proof
          fix x assume "x \<in> set (drop (mid + 1) d)"
          then obtain j where "j < length d - (mid + 1)" "x = d ! (mid + 1 + j)"
            by (auto simp: in_set_conv_nth)
          with sp(1,5) key show "k x \<le> k (d ! mid)"
            by (simp add: not_less)
        qed
        show ?thesis
          unfolding shape
          using lo hi sorted_insertionSort [OF key]
          by (fastforce simp: sorted_wrt_append set_insertionSort)
      qed
      with m show ?thesis by blast
    qed
  qed
  then show "mset ys = mset data"
    and "\<forall>x y. lt x y = ((k y :: nat) < k x) \<Longrightarrow> sorted_wrt (\<lambda>a b. k b \<le> k a) ys"
    by blast+
qed

lemma Slice_result:
  assumes "Slice lt xs = Some ys"
  shows "mset ys = mset xs"
    and "\<forall>x y. lt x y = ((k y :: nat) < k x) \<Longrightarrow> sorted_wrt (\<lambda>a b. k b \<le> k a) ys"
  using pdqsort_func_result [OF assms [unfolded Slice_def]] by blast+

text \<open>On at most 12 elements \<open>sort.Slice\<close> is the insertion sort.\<close>

lemma Slice_small: "length xs \<le> 12 \<Longrightarrow> Slice lt xs = Some (insertionSort lt xs)"
  by (simp add: Slice_def pdqsort_func_def maxInsertion_def insertionSort_func_def)

text \<open>The insertion sort keeps the order of elements with the same key.\<close>

lemma filter_insertLeft:
  assumes "\<forall>x y. lt x y = ((k y :: nat) < k x)"
  shows "filter (\<lambda>z. k z = n) (insertLeft lt x ys) =
    (if k x = n then x # filter (\<lambda>z. k z = n) ys else filter (\<lambda>z. k z = n) ys)"
  by (induction ys) (auto simp: assms)

lemma insertionSort_stable:
  assumes "\<forall>x y. lt x y = ((k y :: nat) < k x)"
  shows "filter (\<lambda>z. k z = n) (insertionSort lt xs) = filter (\<lambda>z. k z = n) xs"
proof -
  have "filter (\<lambda>z. k z = n) (rev (foldl (\<lambda>done x. insertLeft lt x done) acc xs)) =
      filter (\<lambda>z. k z = n) (rev acc) @ filter (\<lambda>z. k z = n) xs" for acc
  proof (induction xs arbitrary: acc)
    case Nil
    show ?case by simp
  next
    case (Cons x xs)
    have "filter (\<lambda>z. k z = n) (rev (insertLeft lt x acc)) =
        filter (\<lambda>z. k z = n) (rev acc) @ filter (\<lambda>z. k z = n) [x]"
      using filter_insertLeft [OF assms, of n x acc]
      by (simp add: rev_filter [symmetric])
    with Cons.IH [of "insertLeft lt x acc"] show ?case
      by simp
  qed
  from this [of "[]"] show ?thesis
    by (simp add: insertionSort_def)
qed

subsection \<open>A run on an example directory\<close>

text \<open>A run in which groups are found, and \<open>sort.Slice\<close> on them is written out.\<close>

lemma FindDuplicates_Slice:
  assumes "discovered E w e \<noteq> []" "Slice moreDuplicates (discovered E w e) = Some ys"
  shows "fst (FindDuplicates E w e) = Inr ys"
proof -
  obtain r s' w1 where sc: "Scan E w (Scanner e) = (r, s', w1)"
    by (cases "Scan E w (Scanner e)")
  with assms(1) obtain scanned where r: "r = Inr scanned"
    by (cases r) (auto simp: discovered_def)
  obtain buckets w2 where gp: "GetPotentialDuplicates E w1 s' = (buckets, w2)"
    by (cases "GetPotentialDuplicates E w1 s'")
  obtain w3 found where pr: "foldl (processFileGroup E (Matcher e)) (w2, []) buckets = (w3, found)"
    by (cases "foldl (processFileGroup E (Matcher e)) (w2, []) buckets")
  have "discovered E w e = found"
    by (simp add: discovered_def sc r gp pr)
  with assms(2) show ?thesis
    by (simp add: FindDuplicates_def sortSlice_def sc r gp pr)
qed

lemma demo_hash:
  "HashFile demoDisk ''/d/a1'' = Inr (md5 [0x61])" "HashFile demoDisk ''/d/a2'' = Inr (md5 [0x61])"
  "HashFile demoDisk ''/d/b1'' = Inr (md5 [0x62])" "HashFile demoDisk ''/d/b2'' = Inr (md5 [0x62])"
  "HashFile demoDisk ''/d/b3'' = Inr (md5 [0x62])"
  by (simp_all add: HashFile_def demoDisk_def HashFile_loop_readable)

lemma md5_x_y: "(md5 [0x61] = md5 [0x62]) = False" "(md5 [0x62] = md5 [0x61]) = False"
  by (simp_all add: md5_x md5_y)

lemmas demo_defs =
  Scan_def demoEngine_def NewEngine_def mkScanner_def NewDirectory_def demoEnv_def
  mkEnv_def scanDirectory_def ScanFiles_def WalkDir_def demoTree_def scanCallback_def
  allocFile_def emptyWorld_def addFile_def demoInfo_def NewFileFromFileInfo_def
  GetPotentialDuplicates_def rangeMap_def processFileGroup_def cli_exact_opts_def
  processExactMatches_def GetDigest_def calculateFileHash_def setFile_def
  createDuplicateGroup_def Matcher_Match_def matchExact_def compareFullDigests_def
  groupA_def groupB3_def mkMatch_def

lemma demo_discovered:
  "discovered (demoEnv [''a1'', ''a2'', ''b1'', ''b2'', ''b3''] (\<lambda>n. [])) emptyWorld demoEngine
     = [groupA, groupB3]"
  by (simp add: discovered_def demo_defs demo_hash md5_x_y)

lemma demo_sorted: "Slice moreDuplicates [groupA, groupB3] = Some [groupB3, groupA]"
  by (simp add: Slice_small insertionSort_def moreDuplicates_def groupA_def groupB3_def)

lemma demo_found:
  "fst (FindDuplicates (demoEnv [''a1'', ''a2'', ''b1'', ''b2'', ''b3''] (\<lambda>n. [])) emptyWorld demoEngine)
     = Inr [groupB3, groupA]"
  by (rule FindDuplicates_Slice) (simp_all add: demo_discovered demo_sorted)

subsection \<open>A scan by name that finds thirteen groups\<close>

lemma thirteen_words:
  "extractWords ascii_tables ''aaa.p'' = [''aaa'']" "extractWords ascii_tables ''aaa.q'' = [''aaa'']"
  "extractWords ascii_tables ''bbb.p'' = [''bbb'']" "extractWords ascii_tables ''bbb.q'' = [''bbb'']"
  "extractWords ascii_tables ''ccc.p'' = [''ccc'']" "extractWords ascii_tables ''ccc.q'' = [''ccc'']"
  "extractWords ascii_tables ''ddd.p'' = [''ddd'']" "extractWords ascii_tables ''ddd.q'' = [''ddd'']"
  "extractWords ascii_tables ''eee.p'' = [''eee'']" "extractWords ascii_tables ''eee.q'' = [''eee'']"
  "extractWords ascii_tables ''fff.p'' = [''fff'']" "extractWords ascii_tables ''fff.q'' = [''fff'']"
  "extractWords ascii_tables ''ggg.p'' = [''ggg'']" "extractWords ascii_tables ''ggg.q'' = [''ggg'']"
  "extractWords ascii_tables ''hhh.p'' = [''hhh'']" "extractWords ascii_tables ''hhh.q'' = [''hhh'']"
  "extractWords ascii_tables ''iii.p'' = [''iii'']" "extractWords ascii_tables ''iii.q'' = [''iii'']"
  "extractWords ascii_tables ''jjj.p'' = [''jjj'']" "extractWords ascii_tables ''jjj.q'' = [''jjj'']"
  "extractWords ascii_tables ''kkk.p'' = [''kkk'']" "extractWords ascii_tables ''kkk.q'' = [''kkk'']"
  "extractWords ascii_tables ''lll.p'' = [''lll'']" "extractWords ascii_tables ''lll.q'' = [''lll'']"
  "extractWords ascii_tables ''mmm.p'' = [''mmm'']" "extractWords ascii_tables ''mmm.q'' = [''mmm'']"
  "extractWords ascii_tables ''mmm.r'' = [''mmm'']"
  by (simp_all add: extractWords_def string_eval)

text \<open>
  Two word lists of one word each, a letter written three times: they score 100 when the
  letters are the same and 0 when they are not.
\<close>

lemma compareWords_letters:
  "byte_of c < 128 \<Longrightarrow> byte_of d < 128 \<Longrightarrow> \<not> (48 \<le> byte_of c \<and> byte_of c \<le> 57) \<Longrightarrow>
   compareWords ascii_tables cli_fuzzy_opts [[c, c, c]] [[d, d, d]] = (if c = d then 100 else 0)"
  by (auto simp: compareWords_greedy matchedWeight_def denominator_def token_weight_def
      tokens_match_def cli_fuzzy_opts_def isSimilar_def HasPrefix_def isNumeric_def
      runes_def isASCII_def byte_of_def RuneSelf_def IsDigit_def ContainsRune_def)

lemma fuzzy_opts:
  "Type cli_fuzzy_opts = MatchTypeFuzzy" "MinMatchPercent cli_fuzzy_opts = 80"
  by (simp_all add: cli_fuzzy_opts_def)

lemmas fuzzy_defs =
  Scan_def fuzzyEngine_def NewEngine_def mkScanner_def NewDirectory_def demoEnv_def
  mkEnv_def scanDirectory_def ScanFiles_def WalkDir_def demoTree_def scanCallback_def
  allocFile_def emptyWorld_def addFile_def demoInfo_def NewFileFromFileInfo_def
  GetPotentialDuplicates_def rangeMap_def processFileGroup_def
  processFuzzyMatches_def Matcher_Match_def matchFuzzy_def File_ExtractWords_def setFile_def
  mkMatch_def thirteenNames_def

text \<open>The groups are found in the order of the names.\<close>

lemma thirteen_discovered:
  "discovered (demoEnv thirteenNames (\<lambda>n. [])) emptyWorld fuzzyEngine =
     [pairGroup 0, pairGroup 2, pairGroup 4, pairGroup 6, pairGroup 8, pairGroup 10,
      pairGroup 12, pairGroup 14, pairGroup 16, pairGroup 18, pairGroup 20, pairGroup 22,
      tripleGroup 24]"
  by (simp add: discovered_def fuzzy_defs fuzzy_opts thirteen_words compareWords_letters
      byte_of_def pairGroup_def tripleGroup_def Let_def del: One_nat_def)

lemma more_pairs:
  "moreDuplicates (pairGroup a) (pairGroup b) = False"
  "moreDuplicates (tripleGroup a) (pairGroup b) = True"
  "moreDuplicates (pairGroup a) (tripleGroup b) = False"
  "moreDuplicates (tripleGroup a) (tripleGroup b) = False"
  by (simp_all add: moreDuplicates_def pairGroup_def tripleGroup_def)

text \<open>
  \<open>sort.Slice\<close> on the thirteen groups: the pivot is the seventh group, \<open>partition_func\<close>
  exchanges it with the first one, then the group of three with the second one, and
  puts the group of three in front. Both sides are in order then.
\<close>

lemma thirteen_sorted:
  "Slice moreDuplicates
     [pairGroup 0, pairGroup 2, pairGroup 4, pairGroup 6, pairGroup 8, pairGroup 10,
      pairGroup 12, pairGroup 14, pairGroup 16, pairGroup 18, pairGroup 20, pairGroup 22,
      tripleGroup 24]
   = Some [tripleGroup 24, pairGroup 12, pairGroup 4, pairGroup 6, pairGroup 8, pairGroup 10,
           pairGroup 0, pairGroup 14, pairGroup 16, pairGroup 18, pairGroup 20, pairGroup 22,
           pairGroup 2]"
  by (simp add: Slice_def pdqsort_func_def maxInsertion_def bitsLen.simps choosePivot_func_def
      shortestNinther_def median_func_def order2_func_def maxSwaps_def
      partialInsertionSort_func_def inOrderUpTo.simps shortestShifting_def
      partition_func_def Swap_def scanUp.simps scanDown.simps partitionLoop.simps
      insertionSort_func_def insertionSort_def Let_def more_pairs)

lemma thirteen_found:
  "fst (FindDuplicates (demoEnv thirteenNames (\<lambda>n. [])) emptyWorld fuzzyEngine)
   = Inr [tripleGroup 24, pairGroup 12, pairGroup 4, pairGroup 6, pairGroup 8, pairGroup 10,
          pairGroup 0, pairGroup 14, pairGroup 16, pairGroup 18, pairGroup 20, pairGroup 22,
          pairGroup 2]"
  by (rule FindDuplicates_Slice) (simp_all add: thirteen_discovered thirteen_sorted)

subsection \<open>The result of a run\<close>

lemma mset_concat_filter: "mset (concat (filter P xss)) \<subseteq># mset (concat xss)"
proof (induction xss)
  case Nil
  show ?case by simp
next
  case (Cons xs xss)
  have "mset (concat xss) \<subseteq># mset xs + mset (concat xss)"
    by simp
  with Cons show ?case
    by (auto intro: mset_subset_eq_mono_add subset_mset.order_trans)
qed

lemma distinct_mset_subset:
  assumes "mset xs \<subseteq># mset ys" "distinct ys"
  shows "distinct xs"
proof -
  have "count (mset xs) a = (if a \<in> set xs then 1 else 0)" for a
  proof (cases "a \<in> set xs")
    case True
    then have "0 < count (mset xs) a"
      by simp
    moreover have "count (mset xs) a \<le> count (mset ys) a"
      using assms(1) by (rule mset_subset_eq_count)
    moreover have "count (mset ys) a \<le> 1"
      using assms(2) by (simp add: distinct_count_atmost_1)
    ultimately have "count (mset xs) a = 1"
      by linarith
    with True show ?thesis
      by (simp only: if_True)
  next
    case False
    then have "a \<notin># mset xs"
      by simp
    then have "count (mset xs) a = 0"
      by (metis not_in_iff)
    with False show ?thesis
      by (simp only: if_False)
  qed
  then show ?thesis
    by (simp only: distinct_count_atmost_1) blast
qed

lemma sortSlice_result:
  "sortSlice E w moreDuplicates xs = (ys, w') \<Longrightarrow>
   mset ys = mset xs
   \<and> sorted_wrt (\<lambda>gi gj. length (Duplicates gi) \<ge> length (Duplicates gj)) ys"
proof -
  assume so: "sortSlice E w moreDuplicates xs = (ys, w')"
  have key: "\<forall>x y. moreDuplicates x y = (length (Duplicates y) < length (Duplicates x))"
    by (simp add: moreDuplicates_def)
  show ?thesis
  proof (cases "Slice moreDuplicates xs")
    case None
    with so have "ys = insertionSort moreDuplicates (shuffle (pickOrder E (rangeCount w)) xs)"
      by (auto simp: sortSlice_def)
    then show ?thesis
      using sorted_insertionSort [OF key] by (simp add: mset_insertionSort mset_shuffle)
  next
    case (Some zs)
    with so have "ys = zs"
      by (auto simp: sortSlice_def)
    with Slice_result(1) [OF Some] Slice_result(2) [OF Some key] show ?thesis
      by simp
  qed
qed

text \<open>A successful run, step by step.\<close>

lemma FindDuplicates_steps:
  assumes "fst (FindDuplicates E w e) = Inr gs"
  obtains scanned s' w1 buckets w2 w3 found w4 where
    "Scan E w (Scanner e) = (Inr scanned, s', w1)"
    "GetPotentialDuplicates E w1 s' = (buckets, w2)"
    "foldl (processFileGroup E (Matcher e)) (w2, []) buckets = (w3, found)"
    "sortSlice E w3 moreDuplicates found = (gs, w4)"
    "discovered E w e = found"
proof -
  obtain r s' w1 where sc: "Scan E w (Scanner e) = (r, s', w1)"
    by (cases "Scan E w (Scanner e)")
  obtain buckets w2 where gp: "GetPotentialDuplicates E w1 s' = (buckets, w2)"
    by (cases "GetPotentialDuplicates E w1 s'")
  obtain w3 found where pr: "foldl (processFileGroup E (Matcher e)) (w2, []) buckets = (w3, found)"
    by (cases "foldl (processFileGroup E (Matcher e)) (w2, []) buckets")
  obtain ys w4 where so: "sortSlice E w3 moreDuplicates found = (ys, w4)"
    by (cases "sortSlice E w3 moreDuplicates found")
  from assms sc obtain scanned where r: "r = Inr scanned"
    by (cases r) (auto simp: FindDuplicates_def)
  from assms sc r gp pr so have "ys = gs"
    by (simp add: FindDuplicates_def)
  moreover have "discovered E w e = found"
    by (simp add: discovered_def sc r gp pr)
  ultimately show ?thesis
    using that sc r gp pr so by blast
qed

lemma discovered_disjoint:
  assumes "Scan E w s = (Inr scanned, s', w1)" "GetPotentialDuplicates E w1 s' = (buckets, w2)"
    and "foldl (processFileGroup E opts) (w2, []) buckets = (w3, found)"
  shows "distinct (members found)" and "list_all aligned found"
proof -
  obtain vals where rm: "rangeMap E w1 (filesBySize s') = (vals, w2)"
    and b: "buckets = filter (\<lambda>fs. length fs > 1) vals"
    using assms(2) by (auto simp: GetPotentialDuplicates_def split: prod.splits)
  have inv: "scanInv w s' w1"
    using Scan_inv [OF assms(1)] .
  have "mset (concat vals) = mset (files s')"
    using rangeMap_members [OF rm] inv by (simp add: scanInv_def)
  moreover have "distinct (files s')"
    using inv by (simp add: scanInv_def)
  ultimately have "distinct (concat vals)"
    by (metis mset_eq_imp_distinct_iff)
  then have db: "distinct (concat buckets)"
    using distinct_mset_subset [OF mset_concat_filter] b by blast
  have "grows (concat buckets) (w2, []) (w3, found)"
    using processAll_grows [of buckets "(w2, [])" E opts] assms(3) by simp
  then have sub: "mset (members found) \<subseteq># mset (concat buckets)" and al: "list_all aligned found"
    by (auto simp: grows_def)
  from distinct_mset_subset [OF sub db] show "distinct (members found)" .
  from al show "list_all aligned found" .
qed

subsection \<open>Grouping allocates no record\<close>

lemma GetDigest_nextFile: "nextFile (snd (GetDigest disk w f)) = nextFile w"
  by (simp add: GetDigest_def calculateFileHash_def setFile_def split: option.splits sum.splits)

lemma GetPartialDigest_nextFile: "nextFile (snd (GetPartialDigest disk w f)) = nextFile w"
  by (simp add: GetPartialDigest_def calculatePartialFileHash_def setFile_def GetDigest_nextFile
      split: option.splits sum.splits)

lemma compareFullDigests_nextFile:
  "nextFile (snd (compareFullDigests disk w a b)) = nextFile w"
proof -
  obtain r1 w1 where g1: "GetDigest disk w a = (r1, w1)"
    by (cases "GetDigest disk w a")
  obtain r2 w2 where g2: "GetDigest disk w1 b = (r2, w2)"
    by (cases "GetDigest disk w1 b")
  have "nextFile w1 = nextFile w" "nextFile w2 = nextFile w1"
    using GetDigest_nextFile [of disk w a] GetDigest_nextFile [of disk w1 b] g1 g2 by simp_all
  then show ?thesis
    by (simp add: compareFullDigests_def g1 g2 split: sum.splits)
qed

lemma matchExact_nextFile: "nextFile (snd (matchExact disk w a b)) = nextFile w"
proof -
  obtain r1 w1 where g1: "GetPartialDigest disk w a = (r1, w1)"
    by (cases "GetPartialDigest disk w a")
  obtain r2 w2 where g2: "GetPartialDigest disk w1 b = (r2, w2)"
    by (cases "GetPartialDigest disk w1 b")
  have "nextFile w1 = nextFile w" "nextFile w2 = nextFile w1"
    using GetPartialDigest_nextFile [of disk w a] GetPartialDigest_nextFile [of disk w1 b] g1 g2
    by simp_all
  then show ?thesis
    by (simp add: matchExact_def g1 g2 compareFullDigests_nextFile split: sum.splits)
qed

lemma File_ExtractWords_nextFile: "nextFile (snd (File_ExtractWords U w f)) = nextFile w"
  by (simp add: File_ExtractWords_def setFile_def Let_def split: option.splits)

lemma matchFuzzy_nextFile: "nextFile (snd (matchFuzzy U opts w a b)) = nextFile w"
proof -
  obtain r1 w1 where g1: "File_ExtractWords U w a = (r1, w1)"
    by (cases "File_ExtractWords U w a")
  obtain r2 w2 where g2: "File_ExtractWords U w1 b = (r2, w2)"
    by (cases "File_ExtractWords U w1 b")
  have "nextFile w1 = nextFile w" "nextFile w2 = nextFile w1"
    using File_ExtractWords_nextFile [of U w a] File_ExtractWords_nextFile [of U w1 b] g1 g2
    by simp_all
  then show ?thesis
    by (simp add: matchFuzzy_def g1 g2)
qed

lemma Matcher_Match_nextFile:
  "nextFile (snd (Matcher_Match U disk opts w a b)) = nextFile w"
  by (simp add: Matcher_Match_def matchExact_nextFile matchFuzzy_nextFile)

lemma matchAll_nextFile: "nextFile (snd (matchAll E opts w r ds)) = nextFile w"
proof (induction ds arbitrary: w)
  case Nil
  show ?case by simp
next
  case (Cons d ds)
  obtain m w1 where mm: "Matcher_Match (Unicode E) (Open E) opts w r d = (m, w1)"
    by (cases "Matcher_Match (Unicode E) (Open E) opts w r d")
  have "nextFile w1 = nextFile w"
    using Matcher_Match_nextFile [of "Unicode E" "Open E" opts w r d] mm by simp
  with Cons.IH [of w1] show ?case
    by (auto simp: mm split: prod.splits)
qed

lemma createDuplicateGroup_nextFile:
  "nextFile (fst (createDuplicateGroup E opts st fs)) = nextFile (fst st)"
  using matchAll_nextFile [of E opts "fst st"]
  by (auto simp: createDuplicateGroup_def split: list.splits prod.splits)
     (metis snd_conv)

lemma groupByFullHash_nextFile:
  "nextFile (snd (groupByFullHash E w m fs)) = nextFile w"
proof (induction fs arbitrary: w m)
  case Nil
  show ?case by simp
next
  case (Cons f rest)
  obtain r w1 where g: "GetDigest (Open E) w f = (r, w1)"
    by (cases "GetDigest (Open E) w f")
  have "nextFile w1 = nextFile w"
    using GetDigest_nextFile [of "Open E" w f] g by simp
  with Cons.IH [of w1] show ?case
    by (simp add: g split: sum.splits)
qed

lemma groupByHash_nextFile:
  "nextFile (snd (groupByHash E w m fs)) = nextFile w"
proof (induction fs arbitrary: w m)
  case Nil
  show ?case by simp
next
  case (Cons f rest)
  obtain r w1 where g:
    "(if Size (heap w f) \<ge> 3 * 1024 * 1024 then GetPartialDigest (Open E) w f
      else GetDigest (Open E) w f) = (r, w1)"
    by (cases "if Size (heap w f) \<ge> 3 * 1024 * 1024 then GetPartialDigest (Open E) w f
      else GetDigest (Open E) w f")
  have "nextFile w1 = nextFile w"
    using GetDigest_nextFile [of "Open E" w f] GetPartialDigest_nextFile [of "Open E" w f] g
    by (auto split: if_splits)
  with Cons.IH [of w1] show ?case
    using g by (simp split: sum.splits)
qed

lemma rangeMap_nextFile: "nextFile (snd (rangeMap E w m)) = nextFile w"
  by (simp add: rangeMap_def)

lemma fullHashGroups_nextFile:
  "nextFile (fst (fullHashGroups E opts st gps)) = nextFile (fst st)"
  by (induction gps arbitrary: st) (simp_all add: createDuplicateGroup_nextFile)

lemma hashGroups_nextFile:
  "nextFile (fst (hashGroups E opts st gps)) = nextFile (fst st)"
proof (induction gps arbitrary: st)
  case Nil
  show ?case by simp
next
  case (Cons g gps)
  obtain m w1 where gf: "groupByFullHash E (fst st) [] g = (m, w1)"
    by (cases "groupByFullHash E (fst st) [] g")
  obtain fgs w2 where rm: "rangeMap E w1 m = (fgs, w2)"
    by (cases "rangeMap E w1 m")
  have "nextFile w1 = nextFile (fst st)" "nextFile w2 = nextFile w1"
    using groupByFullHash_nextFile [of E "fst st" "[]" g] rangeMap_nextFile [of E w1 m] gf rm
    by simp_all
  then show ?case
    by (simp add: Cons.IH gf rm createDuplicateGroup_nextFile fullHashGroups_nextFile)
qed

lemma processExactMatches_nextFile:
  "nextFile (fst (processExactMatches E opts st fs)) = nextFile (fst st)"
proof -
  obtain m w1 where gh: "groupByHash E (fst st) [] fs = (m, w1)"
    by (cases "groupByHash E (fst st) [] fs")
  obtain gps w2 where rm: "rangeMap E w1 m = (gps, w2)"
    by (cases "rangeMap E w1 m")
  have "nextFile w1 = nextFile (fst st)" "nextFile w2 = nextFile w1"
    using groupByHash_nextFile [of E "fst st" "[]" fs] rangeMap_nextFile [of E w1 m] gh rm
    by simp_all
  then show ?thesis
    by (simp add: processExactMatches_def gh rm hashGroups_nextFile)
qed

lemma fuzzyInner_nextFile:
  "nextFile (fst (fuzzyInner E opts f st todo)) = nextFile (fst st)"
proof (induction todo arbitrary: st)
  case Nil
  show ?case by simp
next
  case (Cons other rest)
  obtain w ms ds P where st: "st = (w, ms, ds, P)"
    by (cases st)
  obtain m w1 where mm: "Matcher_Match (Unicode E) (Open E) opts w f other = (m, w1)"
    by (cases "Matcher_Match (Unicode E) (Open E) opts w f other")
  have "nextFile w1 = nextFile w"
    using Matcher_Match_nextFile [of "Unicode E" "Open E" opts w f other] mm by simp
  then show ?case
    by (simp add: st mm Cons.IH)
qed

lemma fuzzyOuter_nextFile:
  "nextFile (fst (fuzzyOuter E opts fs st todo)) = nextFile (fst st)"
proof (induction todo arbitrary: st)
  case Nil
  show ?case by simp
next
  case (Cons f todo)
  obtain w gs P where st: "st = (w, gs, P)"
    by (cases st)
  obtain w1 ms ds P1 where fi: "fuzzyInner E opts f (w, [], [], P) fs = (w1, ms, ds, P1)"
    by (cases "fuzzyInner E opts f (w, [], [], P) fs") auto
  have "nextFile w1 = nextFile w"
    using fuzzyInner_nextFile [of E opts f "(w, [], [], P)" fs] fi by simp
  then show ?case
    by (simp add: st fi Cons.IH)
qed

lemma processFuzzyMatches_nextFile:
  "nextFile (fst (processFuzzyMatches E opts st fs)) = nextFile (fst st)"
  using fuzzyOuter_nextFile [of E opts fs "(fst st, snd st, {})" fs]
  by (auto simp: processFuzzyMatches_def split: prod.splits)

lemma processFileGroup_nextFile:
  "nextFile (fst (processFileGroup E opts st fs)) = nextFile (fst st)"
  by (simp add: processFileGroup_def processExactMatches_nextFile processFuzzyMatches_nextFile)

lemma processAll_nextFile:
  "nextFile (fst (foldl (processFileGroup E opts) st buckets)) = nextFile (fst st)"
  by (induction buckets arbitrary: st) (simp_all add: processFileGroup_nextFile)

text \<open>
  After a successful run the engine holds the groups returned, and their records are
  allocated: the state that the statement on a failing scan asks for.
\<close>

lemma FindDuplicates_allocated:
  assumes "FindDuplicates E w e = (Inr gs, e', w')"
  shows "groups e' = gs" and "groupsAllocated w' (groups e')"
proof -
  have ok: "fst (FindDuplicates E w e) = Inr gs"
    using assms by simp
  show g: "groups e' = gs"
    using assms by (auto simp: FindDuplicates_def split: prod.splits sum.splits)
  show "groupsAllocated w' (groups e')"
  proof (rule FindDuplicates_steps [OF ok])
    fix scanned s' w1 buckets w2 w3 found w4
    assume sc: "Scan E w (Scanner e) = (Inr scanned, s', w1)"
      and gp: "GetPotentialDuplicates E w1 s' = (buckets, w2)"
      and pr: "foldl (processFileGroup E (Matcher e)) (w2, []) buckets = (w3, found)"
      and so: "sortSlice E w3 moreDuplicates found = (gs, w4)"
    have w': "w' = w4"
      using assms sc gp pr so by (simp add: FindDuplicates_def)
    obtain vals where rm: "rangeMap E w1 (filesBySize s') = (vals, w2)"
      and b: "buckets = filter (\<lambda>fs. length fs > 1) vals"
      using gp by (auto simp: GetPotentialDuplicates_def split: prod.splits)
    have n2: "nextFile w2 = nextFile w1"
      using rangeMap_nextFile [of E w1 "filesBySize s'"] rm by simp
    have n3: "nextFile w3 = nextFile w2"
      using processAll_nextFile [of E "Matcher e" "(w2, [])" buckets] pr by simp
    have n4: "nextFile w4 = nextFile w3"
      using so by (auto simp: sortSlice_def)
    have inv: "scanInv w s' w1"
      using Scan_inv [OF sc] .
    have "set (concat vals) = set (files s')"
      using rangeMap_members [OF rm] inv by (metis scanInv_def mset_eq_setD)
    then have "set (concat buckets) \<subseteq> set (files s')"
      using b by auto
    moreover have "grows (concat buckets) (w2, []) (w3, found)"
      using processAll_grows [of buckets "(w2, [])" E "Matcher e"] pr by simp
    then have "mset (members found) \<subseteq># mset (concat buckets)"
      by (auto simp: grows_def)
    then have "set (members found) \<subseteq> set (concat buckets)"
      using set_mset_mono by fastforce
    moreover have "set gs = set found"
      using sortSlice_result [OF so] by (metis mset_eq_setD)
    ultimately have "\<forall>g \<in> set gs. \<forall>d \<in> set (Duplicates g). d \<in> set (files s')"
      by (fastforce simp: members_def)
    moreover have "set (files s') \<subseteq> {..< nextFile w1}"
      using inv by (auto simp: scanInv_def)
    ultimately show "groupsAllocated w' (groups e')"
      using g w' n2 n3 n4 by (auto simp: groupsAllocated_def list_all_iff)
  qed
qed

text \<open>
  C10: in the groups of a successful run, in either mode, the references and the
  duplicates are distinct records, so no record is in two groups or twice in one, and
  each group has as many matches as duplicates.
\<close>

theorem FindDuplicates_groups_disjoint:
  "fst (FindDuplicates E w e) = Inr gs \<Longrightarrow>
   distinct (concat (map (\<lambda>g. Reference g # Duplicates g) gs))
   \<and> list_all (\<lambda>g. length (Duplicates g) = length (Matches g)) gs"
proof (erule FindDuplicates_steps)
  fix scanned s' w1 buckets w2 w3 found w4
  assume sc: "Scan E w (Scanner e) = (Inr scanned, s', w1)"
    and gp: "GetPotentialDuplicates E w1 s' = (buckets, w2)"
    and pr: "foldl (processFileGroup E (Matcher e)) (w2, []) buckets = (w3, found)"
    and so: "sortSlice E w3 moreDuplicates found = (gs, w4)"
  have m: "mset gs = mset found"
    using sortSlice_result [OF so] by (rule conjunct1)
  have d: "distinct (members found)"
    using sc gp pr by (rule discovered_disjoint(1))
  have a: "list_all aligned found"
    using sc gp pr by (rule discovered_disjoint(2))
  have "mset (map (\<lambda>g. Reference g # Duplicates g) gs)
      = mset (map (\<lambda>g. Reference g # Duplicates g) found)"
    using m by simp
  then have "mset (members gs) = mset (members found)"
    unfolding members_def by (rule mset_concat_cong)
  then have dg: "distinct (members gs)"
    using d mset_eq_imp_distinct_iff by blast
  have "set gs = set found"
    using m by (rule mset_eq_setD)
  with a have ag: "list_all aligned gs"
    by (simp add: list_all_iff)
  have al: "aligned = (\<lambda>g. length (Duplicates g) = length (Matches g))"
    by (simp add: fun_eq_iff aligned_def)
  from dg have "distinct (concat (map (\<lambda>g. Reference g # Duplicates g) gs))"
    by (simp only: members_def)
  moreover from ag have "list_all (\<lambda>g. length (Duplicates g) = length (Matches g)) gs"
    by (simp only: al)
  ultimately show "distinct (concat (map (\<lambda>g. Reference g # Duplicates g) gs))
     \<and> list_all (\<lambda>g. length (Duplicates g) = length (Matches g)) gs" ..
qed

theorem FindDuplicates_groups_disjoint_witness:
  "fst (FindDuplicates (demoEnv [''a1'', ''a2'', ''b1'', ''b2'', ''b3''] (\<lambda>n. [])) emptyWorld demoEngine)
     = Inr [groupB3, groupA]
   \<and> concat (map (\<lambda>g. Reference g # Duplicates g) [groupB3, groupA]) = [2, 3, 4, 0, 1]
   \<and> distinct (concat (map (\<lambda>g. Reference g # Duplicates g) [groupB3, groupA]))
   \<and> list_all (\<lambda>g. length (Duplicates g) = length (Matches g)) [groupB3, groupA]"
  using FindDuplicates_groups_disjoint [OF demo_found] demo_found
  by (simp add: groupA_def groupB3_def)

text \<open>
  C4, as the code has it: the group list of a successful run is in descending order
  of the number of duplicates, and it is a rearrangement of the groups found. The order
  of groups with the same number of duplicates is the one \<open>sort.Slice\<close> gives them,
  which need not be the order in which they were found.
\<close>

theorem FindDuplicates_sorted:
  "fst (FindDuplicates E w e) = Inr gs \<Longrightarrow>
   sorted_wrt (\<lambda>gi gj. length (Duplicates gi) \<ge> length (Duplicates gj)) gs
   \<and> mset gs = mset (discovered E w e)"
proof -
  assume ok: "fst (FindDuplicates E w e) = Inr gs"
  from FindDuplicates_steps [OF ok] obtain w3 found w4 where
    "sortSlice E w3 moreDuplicates found = (gs, w4)" "discovered E w e = found"
    by blast
  with sortSlice_result show ?thesis by blast
qed

theorem FindDuplicates_sorted_witness:
  "fst (FindDuplicates (demoEnv [''a1'', ''a2'', ''b1'', ''b2'', ''b3''] (\<lambda>n. [])) emptyWorld demoEngine)
     = Inr [groupB3, groupA]
   \<and> discovered (demoEnv [''a1'', ''a2'', ''b1'', ''b2'', ''b3''] (\<lambda>n. [])) emptyWorld demoEngine
     = [groupA, groupB3]
   \<and> map (\<lambda>g. length (Duplicates g)) [groupB3, groupA] = [2, 1]
   \<and> sorted_wrt (\<lambda>gi gj. length (Duplicates gi) \<ge> length (Duplicates gj)) [groupB3, groupA]"
  using FindDuplicates_sorted [OF demo_found] demo_found demo_discovered
  by (simp add: groupA_def groupB3_def)

text \<open>
  With at most 12 groups \<open>sort.Slice\<close> sorts by insertion, and the groups with the same
  number of duplicates keep the order in which they were found.
\<close>

lemma FindDuplicates_stable_small:
  assumes "fst (FindDuplicates E w e) = Inr gs" "length (discovered E w e) \<le> 12"
  shows "filter (\<lambda>g. length (Duplicates g) = n) gs
       = filter (\<lambda>g. length (Duplicates g) = n) (discovered E w e)"
proof -
  from FindDuplicates_steps [OF assms(1)] obtain w3 found w4 where
    so: "sortSlice E w3 moreDuplicates found = (gs, w4)" and d: "discovered E w e = found"
    by blast
  from assms(2) d have "Slice moreDuplicates found = Some (insertionSort moreDuplicates found)"
    by (simp add: Slice_small)
  with so have "gs = insertionSort moreDuplicates found"
    by (simp add: sortSlice_def)
  moreover have "\<forall>x y. moreDuplicates x y = (length (Duplicates y) < length (Duplicates x))"
    by (simp add: moreDuplicates_def)
  ultimately show ?thesis
    using d insertionSort_stable [of moreDuplicates "\<lambda>g. length (Duplicates g)" n found]
    by simp
qed

text \<open>
  C4 as stated fails on the order of ties: \<open>sort.Slice\<close> is not stable on more than 12
  elements. A standard scan of a directory that holds the 27 files \<open>aaa.p aaa.q\<close>,
  \<open>bbb.p bbb.q\<close> and so on to \<open>lll.p lll.q\<close>, and \<open>mmm.p mmm.q mmm.r\<close>, all of one size, finds
  13 groups, in the order of the names; no map with more than one key is looped over, so
  every run finds them in this order. The first twelve groups have one duplicate each.
  In the list returned, the group of \<open>ggg.p\<close> stands before the group of \<open>aaa.p\<close>, and the
  group of \<open>bbb.p\<close> is the last.
\<close>

theorem FindDuplicates_stable_counterexample:
  "discovered (demoEnv thirteenNames (\<lambda>n. [])) emptyWorld fuzzyEngine =
     [pairGroup 0, pairGroup 2, pairGroup 4, pairGroup 6, pairGroup 8, pairGroup 10,
      pairGroup 12, pairGroup 14, pairGroup 16, pairGroup 18, pairGroup 20, pairGroup 22,
      tripleGroup 24]
   \<and> length (Duplicates (pairGroup 0)) = length (Duplicates (pairGroup 12))
   \<and> length (Duplicates (pairGroup 2)) = length (Duplicates (pairGroup 22))
   \<and> fst (FindDuplicates (demoEnv thirteenNames (\<lambda>n. [])) emptyWorld fuzzyEngine) =
     Inr [tripleGroup 24, pairGroup 12, pairGroup 4, pairGroup 6, pairGroup 8, pairGroup 10,
          pairGroup 0, pairGroup 14, pairGroup 16, pairGroup 18, pairGroup 20, pairGroup 22,
          pairGroup 2]"
  using thirteen_discovered thirteen_found
  by (simp add: pairGroup_def)

end
